theory Spec2Isabelle
  imports Main "HOL-Library.Word"
begin

unbundle bit_operations_syntax

section \<open>Data model\<close>

text \<open>
  The header \<^verbatim>\<open>function_dispatch.h\<close> works on caller-owned byte buffers.
  A \<^verbatim>\<open>uint8_t\<close> is an \<open>8 word\<close>, a \<^verbatim>\<open>uint64_t\<close> or \<^verbatim>\<open>size_t\<close> a \<open>64 word\<close>
  (LP64), and a buffer is the list of its bytes. A pointer into a buffer is the buffer
  together with an offset; a store through it is a list update. The callers' contract
  (the destination holds \<open>length\<close> bytes, the packed source \<open>(length + 1) div 2\<close>) appears
  as hypotheses of the theorems, since the C code itself checks nothing.
\<close>

type_synonym u8 = "8 word"
type_synonym u64 = "64 word"

definition byte_of_char :: "char \<Rightarrow> u8" where
  "byte_of_char c = of_nat (of_char c)"

text \<open>Writing a run of bytes at an offset: \<^verbatim>\<open>memcpy\<close> and the unaligned vector store.\<close>

fun write_bytes :: "u8 list \<Rightarrow> nat \<Rightarrow> u8 list \<Rightarrow> u8 list" where
  "write_bytes dest off [] = dest"
| "write_bytes dest off (b # bs) = write_bytes (dest[off := b]) (Suc off) bs"

definition memcpy :: "u8 list \<Rightarrow> nat \<Rightarrow> u8 list \<Rightarrow> nat \<Rightarrow> nat \<Rightarrow> u8 list" where
  "memcpy dest doff src soff n = write_bytes dest doff (take n (drop soff src))"

section \<open>Quality decoder\<close>

text \<open>
  \<^verbatim>\<open>for (size_t i=0; i<length; i++) { dest[i] = encoded_qualities[i] + 33; }\<close>
  The sum is computed in \<^verbatim>\<open>int\<close> and truncated to \<^verbatim>\<open>uint8_t\<close> by the store, which is
  addition on \<open>8 word\<close>.
\<close>

function decode_bam_qualities_loop :: "u8 list \<Rightarrow> u8 list \<Rightarrow> nat \<Rightarrow> nat \<Rightarrow> u8 list" where
  "decode_bam_qualities_loop dest encoded_qualities len i =
     (if i < len
      then decode_bam_qualities_loop (dest[i := encoded_qualities ! i + 33])
             encoded_qualities len (i + 1)
      else dest)"
  by pat_completeness auto
termination
  by (relation "measure (\<lambda>(dest, enc, len, i). len - i)") auto

declare decode_bam_qualities_loop.simps [simp del]

definition decode_bam_qualities :: "u8 list \<Rightarrow> u8 list \<Rightarrow> nat \<Rightarrow> u8 list" where
  "decode_bam_qualities dest encoded_qualities len =
     decode_bam_qualities_loop dest encoded_qualities len 0"

section \<open>Nucleotide decoder: reference path\<close>

text \<open>
  The two lookup tables of \<^verbatim>\<open>decode_bam_sequence_default\<close>, as in the source:
  \<^verbatim>\<open>code2base\<close> holds the two characters of every packed byte, \<^verbatim>\<open>nuc_lookup\<close> the sixteen
  characters of the alphabet.
\<close>

definition code2base :: "u8 list" where
  "code2base = map byte_of_char (
       ''===A=C=M=G=R=S=V=T=W=Y=H=K=D=B=N'' @
       ''A=AAACAMAGARASAVATAWAYAHAKADABAN'' @
       ''C=CACCCMCGCRCSCVCTCWCYCHCKCDCBCN'' @
       ''M=MAMCMMMGMRMSMVMTMWMYMHMKMDMBMN'' @
       ''G=GAGCGMGGGRGSGVGTGWGYGHGKGDGBGN'' @
       ''R=RARCRMRGRRRSRVRTRWRYRHRKRDRBRN'' @
       ''S=SASCSMSGSRSSSVSTSWSYSHSKSDSBSN'' @
       ''V=VAVCVMVGVRVSVVVTVWVYVHVKVDVBVN'' @
       ''T=TATCTMTGTRTSTVTTTWTYTHTKTDTBTN'' @
       ''W=WAWCWMWGWRWSWVWTWWWYWHWKWDWBWN'' @
       ''Y=YAYCYMYGYRYSYVYTYWYYYHYKYDYBYN'' @
       ''H=HAHCHMHGHRHSHVHTHWHYHHHKHDHBHN'' @
       ''K=KAKCKMKGKRKSKVKTKWKYKHKKKDKBKN'' @
       ''D=DADCDMDGDRDSDVDTDWDYDHDKDDDBDN'' @
       ''B=BABCBMBGBRBSBVBTBWBYBHBKBDBBBN'' @
       ''N=NANCNMNGNRNSNVNTNWNYNHNKNDNBNN'')"

definition nuc_lookup :: "u8 list" where
  "nuc_lookup = map byte_of_char ''=ACMGRSVTWYHKDBN''"

text \<open>
  \<^verbatim>\<open>for (size_t i=0; i < length_2; i++)
      memcpy(dest + i*2, code2base + ((size_t)encoded_sequence[i] * 2), 2);\<close>
\<close>

function decode_bam_sequence_default_loop ::
  "u8 list \<Rightarrow> u8 list \<Rightarrow> nat \<Rightarrow> nat \<Rightarrow> u8 list" where
  "decode_bam_sequence_default_loop dest encoded_sequence length_2 i =
     (if i < length_2
      then decode_bam_sequence_default_loop
             (memcpy dest (i * 2) code2base (unat (encoded_sequence ! i) * 2) 2)
             encoded_sequence length_2 (i + 1)
      else dest)"
  by pat_completeness auto
termination
  by (relation "measure (\<lambda>(dest, enc, length_2, i). length_2 - i)") auto

declare decode_bam_sequence_default_loop.simps [simp del]

definition decode_bam_sequence_default :: "u8 list \<Rightarrow> u8 list \<Rightarrow> nat \<Rightarrow> u8 list" where
  "decode_bam_sequence_default dest encoded_sequence len =
     (let length_2 = len div 2;
          dest1 = decode_bam_sequence_default_loop dest encoded_sequence length_2 0
      in if len AND 1 \<noteq> 0
         then (let encoded = drop_bit 4 (encoded_sequence ! length_2)
               in dest1[len - 1 := nuc_lookup ! unat encoded])
         else dest1)"

section \<open>Nucleotide decoder: SSSE3 path\<close>

text \<open>
  An \<^verbatim>\<open>__m128i\<close> is the list of its sixteen bytes, lowest address first. The intrinsics
  come from the compiler's \<^verbatim>\<open>immintrin.h\<close>, not from this repository; they are modelled
  after the instruction set reference: \<^verbatim>\<open>PSHUFB\<close> writes zero where the selector byte has
  bit 7 set and otherwise the source byte named by the selector's low four bits;
  \<^verbatim>\<open>PSRLQ\<close> shifts each of the two little-endian 64-bit lanes to the right, filling with
  zeros; \<^verbatim>\<open>POR\<close> and \<^verbatim>\<open>PAND\<close> work bytewise; \<^verbatim>\<open>LDDQU\<close> and \<^verbatim>\<open>MOVDQU\<close> move sixteen
  bytes from and to memory.
\<close>

type_synonym m128i = "u8 list"

definition mm_lddqu_si128 :: "u8 list \<Rightarrow> nat \<Rightarrow> m128i" where
  "mm_lddqu_si128 mem off = take 16 (drop off mem)"

definition mm_storeu_si128 :: "u8 list \<Rightarrow> nat \<Rightarrow> m128i \<Rightarrow> u8 list" where
  "mm_storeu_si128 mem off v = write_bytes mem off (take 16 v)"

definition mm_set1_epi8 :: "u8 \<Rightarrow> m128i" where
  "mm_set1_epi8 a = replicate 16 a"

definition mm_shuffle_epi8 :: "m128i \<Rightarrow> m128i \<Rightarrow> m128i" where
  "mm_shuffle_epi8 a b = map (\<lambda>m. if bit m 7 then 0 else a ! unat (m AND 0x0F)) b"

definition lane_of_bytes :: "u8 list \<Rightarrow> u64" where
  "lane_of_bytes bs = foldr (\<lambda>b w. ucast b OR push_bit 8 w) bs 0"

definition bytes_of_lane :: "u64 \<Rightarrow> u8 list" where
  "bytes_of_lane w = map (\<lambda>j. ucast (drop_bit (8 * j) w)) [0..<8]"

definition mm_srli_epi64 :: "m128i \<Rightarrow> nat \<Rightarrow> m128i" where
  "mm_srli_epi64 a imm8 =
     bytes_of_lane (drop_bit imm8 (lane_of_bytes (take 8 a))) @
     bytes_of_lane (drop_bit imm8 (lane_of_bytes (take 8 (drop 8 a))))"

definition mm_or_si128 :: "m128i \<Rightarrow> m128i \<Rightarrow> m128i" where
  "mm_or_si128 a b = map2 (OR) a b"

definition mm_and_si128 :: "m128i \<Rightarrow> m128i \<Rightarrow> m128i" where
  "mm_and_si128 a b = map2 (AND) a b"

text \<open>The four shuffle masks, \<^verbatim>\<open>_mm_setr_epi8\<close> listing the bytes lowest first.\<close>

definition first_upper_shuffle :: m128i where
  "first_upper_shuffle =
     [0, 0xff, 1, 0xff, 2, 0xff, 3, 0xff, 4, 0xff, 5, 0xff, 6, 0xff, 7, 0xff]"

definition first_lower_shuffle :: m128i where
  "first_lower_shuffle =
     [0xff, 0, 0xff, 1, 0xff, 2, 0xff, 3, 0xff, 4, 0xff, 5, 0xff, 6, 0xff, 7]"

definition second_upper_shuffle :: m128i where
  "second_upper_shuffle =
     [8, 0xff, 9, 0xff, 10, 0xff, 11, 0xff, 12, 0xff, 13, 0xff, 14, 0xff, 15, 0xff]"

definition second_lower_shuffle :: m128i where
  "second_lower_shuffle =
     [0xff, 8, 0xff, 9, 0xff, 10, 0xff, 11, 0xff, 12, 0xff, 13, 0xff, 14, 0xff, 15]"

definition nuc_lookup_vec :: m128i where
  "nuc_lookup_vec = mm_lddqu_si128 nuc_lookup 0"

text \<open>One pass of the vector loop: sixteen packed bytes in, thirty-two characters out.\<close>

definition decode_bam_sequence_ssse3_body ::
  "u8 list \<Rightarrow> u8 list \<Rightarrow> nat \<Rightarrow> nat \<Rightarrow> u8 list" where
  "decode_bam_sequence_ssse3_body dest encoded_sequence dest_cursor encoded_cursor =
     (let encoded = mm_lddqu_si128 encoded_sequence encoded_cursor;
          first_upper = mm_shuffle_epi8 encoded first_upper_shuffle;
          first_lower = mm_shuffle_epi8 encoded first_lower_shuffle;
          shifted_first_upper = mm_srli_epi64 first_upper 4;
          first_merged = mm_or_si128 shifted_first_upper first_lower;
          first_indexes = mm_and_si128 first_merged (mm_set1_epi8 0b1111);
          first_nucleotides = mm_shuffle_epi8 nuc_lookup_vec first_indexes;
          dest1 = mm_storeu_si128 dest dest_cursor first_nucleotides;
          second_upper = mm_shuffle_epi8 encoded second_upper_shuffle;
          second_lower = mm_shuffle_epi8 encoded second_lower_shuffle;
          shifted_second_upper = mm_srli_epi64 second_upper 4;
          second_merged = mm_or_si128 shifted_second_upper second_lower;
          second_indexes = mm_and_si128 second_merged (mm_set1_epi8 0b1111);
          second_nucleotides = mm_shuffle_epi8 nuc_lookup_vec second_indexes
      in mm_storeu_si128 dest1 (dest_cursor + 16) second_nucleotides)"

text \<open>
  \<^verbatim>\<open>while (dest_cursor < dest_vec_end_ptr)\<close>, cursors counted from the start of their
  buffers. \<^verbatim>\<open>dest_vec_end_ptr\<close> is \<^verbatim>\<open>dest + length - 32\<close>, which lies before \<^verbatim>\<open>dest\<close> when
  \<open>length < 32\<close>: the offset is an \<open>int\<close>, so that the comparison is then false, as it is for
  the addresses of a buffer that does not sit in the first 32 bytes of memory.
\<close>

function decode_bam_sequence_ssse3_loop ::
  "u8 list \<Rightarrow> u8 list \<Rightarrow> int \<Rightarrow> nat \<Rightarrow> nat \<Rightarrow> u8 list \<times> nat \<times> nat" where
  "decode_bam_sequence_ssse3_loop dest encoded_sequence dest_vec_end dest_cursor encoded_cursor =
     (if int dest_cursor < dest_vec_end
      then decode_bam_sequence_ssse3_loop
             (decode_bam_sequence_ssse3_body dest encoded_sequence dest_cursor encoded_cursor)
             encoded_sequence dest_vec_end (dest_cursor + 2 * 16) (encoded_cursor + 16)
      else (dest, dest_cursor, encoded_cursor))"
  by pat_completeness auto
termination
  by (relation "measure (\<lambda>(dest, enc, e, c, ec). nat (e - int c))") auto

declare decode_bam_sequence_ssse3_loop.simps [simp del]

text \<open>
  The tail call \<^verbatim>\<open>decode_bam_sequence_default(dest_cursor, encoded_cursor,
  dest_end_ptr - dest_cursor)\<close> sees the two buffers from the cursors on; what it writes
  lands in the destination behind \<open>dest_cursor\<close>.
\<close>

definition decode_bam_sequence_ssse3 :: "u8 list \<Rightarrow> u8 list \<Rightarrow> nat \<Rightarrow> u8 list" where
  "decode_bam_sequence_ssse3 dest encoded_sequence len =
     (let dest_vec_end = int len - 2 * 16
      in case decode_bam_sequence_ssse3_loop dest encoded_sequence dest_vec_end 0 0 of
           (dest1, dest_cursor, encoded_cursor) \<Rightarrow>
             take dest_cursor dest1 @
             decode_bam_sequence_default (drop dest_cursor dest1)
               (drop encoded_cursor encoded_sequence) (len - dest_cursor))"


text \<open>
  The \<open>i\<close>-th 4-bit code of a packed buffer: the high nibble of byte \<open>i div 2\<close> for even
  \<open>i\<close>, the low nibble for odd \<open>i\<close>; and the character the alphabet gives it.
\<close>

definition nibble_at :: "u8 list \<Rightarrow> nat \<Rightarrow> u8" where
  "nibble_at enc i =
     (if even i then drop_bit 4 (enc ! (i div 2)) else enc ! (i div 2) AND 0x0F)"

definition base_at :: "u8 list \<Rightarrow> nat \<Rightarrow> u8" where
  "base_at enc i = map byte_of_char ''=ACMGRSVTWYHKDBN'' ! unat (nibble_at enc i)"

section \<open>Canonical k-mer encoder\<close>

text \<open>
  The 128-entry table \<^verbatim>\<open>NUCLEOTIDE_TO_TWOBIT\<close>, as in the source: 0 to 3 for A, C, G, T in
  either case, 8 for N and n, 4 for every other 7-bit byte.
\<close>

definition NUCLEOTIDE_TO_TWOBIT :: "u8 list" where
  "NUCLEOTIDE_TO_TWOBIT = [
    4, 4, 4, 4, 4, 4, 4, 4, 4, 4, 4, 4, 4, 4, 4, 4,
    4, 4, 4, 4, 4, 4, 4, 4, 4, 4, 4, 4, 4, 4, 4, 4,
    4, 4, 4, 4, 4, 4, 4, 4, 4, 4, 4, 4, 4, 4, 4, 4,
    4, 4, 4, 4, 4, 4, 4, 4, 4, 4, 4, 4, 4, 4, 4, 4,
    4, 0, 4, 1, 4, 4, 4, 2, 4, 4, 4, 4, 4, 4, 8, 4,
    4, 4, 4, 4, 3, 4, 4, 4, 4, 4, 4, 4, 4, 4, 4, 4,
    4, 0, 4, 1, 4, 4, 4, 2, 4, 4, 4, 4, 4, 4, 8, 4,
    4, 4, 4, 4, 3, 4, 4, 4, 4, 4, 4, 4, 4, 4, 4, 4]"

text \<open>
  The function returns an \<^verbatim>\<open>int64_t\<close>: the packed k-mer, or one of two negative
  sentinels. The model returns the 64-bit pattern of that value; \<open>- 1\<close> and \<open>- 2\<close> are the
  words \<^verbatim>\<open>0xFFFFFFFFFFFFFFFF\<close> and \<^verbatim>\<open>0xFFFFFFFFFFFFFFFE\<close>.
\<close>

definition TWOBIT_UNKNOWN_CHAR :: u64 where
  "TWOBIT_UNKNOWN_CHAR = - 1"

definition TWOBIT_N_CHAR :: u64 where
  "TWOBIT_N_CHAR = - 2"

text \<open>
  The table is indexed by a \<^verbatim>\<open>uint8_t\<close> of the window. An index of 128 or more reads
  past the end of the table, which C leaves undefined; the model makes that read a fault
  that ends the call.
\<close>

datatype fault = TableOverrun

definition twobit_lookup :: "u8 \<Rightarrow> fault + u64" where
  "twobit_lookup c =
     (if unat c < length NUCLEOTIDE_TO_TWOBIT
      then Inr (ucast (NUCLEOTIDE_TO_TWOBIT ! unat c))
      else Inl TableOverrun)"

definition bind_fault :: "fault + 'a \<Rightarrow> ('a \<Rightarrow> fault + 'b) \<Rightarrow> fault + 'b" where
  "bind_fault m f = (case m of Inl e \<Rightarrow> Inl e | Inr x \<Rightarrow> f x)"

text \<open>
  \<^verbatim>\<open>reverse_complement_kmer\<close>. The final shift count \<^verbatim>\<open>64 - (k * 2)\<close> is computed in
  \<^verbatim>\<open>uint64_t\<close>. C leaves a shift by 64 or more undefined, where \<open>drop_bit\<close> gives 0; the
  count is below 64 exactly for \<open>1 \<le> k \<le> 32\<close>, the range all theorems below assume.
\<close>

definition reverse_complement_kmer :: "u64 \<Rightarrow> u64 \<Rightarrow> u64" where
  "reverse_complement_kmer kmer k =
     (let comp = NOT kmer;
          revcomp = push_bit 32 comp OR drop_bit 32 comp;
          revcomp = drop_bit 16 (revcomp AND 0xFFFF0000FFFF0000) OR
                    push_bit 16 (revcomp AND 0x0000FFFF0000FFFF);
          revcomp = drop_bit 8 (revcomp AND 0xFF00FF00FF00FF00) OR
                    push_bit 8 (revcomp AND 0x00FF00FF00FF00FF);
          revcomp = drop_bit 4 (revcomp AND 0xF0F0F0F0F0F0F0F0) OR
                    push_bit 4 (revcomp AND 0x0F0F0F0F0F0F0F0F);
          revcomp = drop_bit 2 (revcomp AND 0xCCCCCCCCCCCCCCCC) OR
                    push_bit 2 (revcomp AND 0x3333333333333333)
      in drop_bit (unat (64 - k * 2)) revcomp)"

text \<open>
  The first loop of \<^verbatim>\<open>sequence_to_canonical_kmer\<close> takes four bases per pass while
  \<^verbatim>\<open>i < vector_end\<close>, with \<^verbatim>\<open>vector_end = k - 4\<close> computed in \<^verbatim>\<open>uint64_t\<close> and read as the
  signed \<^verbatim>\<open>Py_ssize_t\<close>. The index \<open>i\<close> never becomes negative and is a \<open>nat\<close>.
\<close>

definition kmer_chunk :: "u8 list \<Rightarrow> nat \<Rightarrow> u64 \<Rightarrow> u64 \<Rightarrow> fault + (u64 \<times> u64)" where
  "kmer_chunk sequence i all_nucs kmer =
     bind_fault (twobit_lookup (sequence ! i)) (\<lambda>nuc0.
     bind_fault (twobit_lookup (sequence ! (i + 1))) (\<lambda>nuc1.
     bind_fault (twobit_lookup (sequence ! (i + 2))) (\<lambda>nuc2.
     bind_fault (twobit_lookup (sequence ! (i + 3))) (\<lambda>nuc3.
       let all_nucs = all_nucs OR (nuc0 OR nuc1 OR nuc2 OR nuc3);
           kchunk = push_bit 6 nuc0 OR push_bit 4 nuc1 OR push_bit 2 nuc2 OR nuc3;
           kmer = push_bit 8 kmer;
           kmer = kmer OR kchunk
       in Inr (all_nucs, kmer)))))"

function kmer_chunk_loop ::
  "u8 list \<Rightarrow> int \<Rightarrow> nat \<Rightarrow> u64 \<Rightarrow> u64 \<Rightarrow> fault + (nat \<times> u64 \<times> u64)" where
  "kmer_chunk_loop sequence vector_end i all_nucs kmer =
     (if int i < vector_end
      then (case kmer_chunk sequence i all_nucs kmer of
              Inl e \<Rightarrow> Inl e
            | Inr (all_nucs', kmer') \<Rightarrow>
                kmer_chunk_loop sequence vector_end (i + 4) all_nucs' kmer')
      else Inr (i, all_nucs, kmer))"
  by pat_completeness auto
termination
  by (relation "measure (\<lambda>(s, e, i, a, km). nat (e - int i))") auto

declare kmer_chunk_loop.simps [simp del]

text \<open>The second loop, one base per pass while \<^verbatim>\<open>i < (Py_ssize_t)k\<close>.\<close>

function kmer_tail_loop ::
  "u8 list \<Rightarrow> int \<Rightarrow> nat \<Rightarrow> u64 \<Rightarrow> u64 \<Rightarrow> fault + (u64 \<times> u64)" where
  "kmer_tail_loop sequence k i all_nucs kmer =
     (if int i < k
      then (case twobit_lookup (sequence ! i) of
              Inl e \<Rightarrow> Inl e
            | Inr nuc \<Rightarrow>
                kmer_tail_loop sequence k (i + 1) (all_nucs OR nuc) (push_bit 2 kmer OR nuc))
      else Inr (all_nucs, kmer))"
  by pat_completeness auto
termination
  by (relation "measure (\<lambda>(s, k, i, a, km). nat (k - int i))") auto

declare kmer_tail_loop.simps [simp del]

text \<open>What follows the loops: the two error returns, then the smaller of the two encodings.\<close>

definition kmer_return :: "u64 \<Rightarrow> u64 \<Rightarrow> u64 \<Rightarrow> u64" where
  "kmer_return all_nucs kmer k =
     (let canonical =
            (let revcomp_kmer = reverse_complement_kmer kmer k
             in if revcomp_kmer > kmer then kmer else revcomp_kmer)
      in if all_nucs > 3
         then (if all_nucs AND 4 \<noteq> 0 then TWOBIT_UNKNOWN_CHAR
               else if all_nucs AND 8 \<noteq> 0 then TWOBIT_N_CHAR
               else canonical)
         else canonical)"

definition sequence_to_canonical_kmer :: "u8 list \<Rightarrow> u64 \<Rightarrow> fault + u64" where
  "sequence_to_canonical_kmer sequence k =
     (let kmer = 0; all_nucs = 0; vector_end = sint (k - 4)
      in bind_fault (kmer_chunk_loop sequence vector_end 0 all_nucs kmer)
           (\<lambda>(i, all_nucs, kmer).
         bind_fault (kmer_tail_loop sequence (sint k) i all_nucs kmer)
           (\<lambda>(all_nucs, kmer). Inr (kmer_return all_nucs kmer k))))"

section \<open>Reference notions for the k-mer claims\<close>

text \<open>
  The valid bases and their 2-bit codes, the Watson-Crick complement (keeping the case of
  the letter), the reverse complement of a window, and the numeric value of a window
  packed two bits per base, first base most significant.
\<close>

definition is_acgt :: "u8 \<Rightarrow> bool" where
  "is_acgt c = (c \<in> set (map byte_of_char ''ACGTacgt''))"

definition base_code :: "u8 \<Rightarrow> int" where
  "base_code c =
     (if c = byte_of_char CHR ''A'' \<or> c = byte_of_char CHR ''a'' then 0
      else if c = byte_of_char CHR ''C'' \<or> c = byte_of_char CHR ''c'' then 1
      else if c = byte_of_char CHR ''G'' \<or> c = byte_of_char CHR ''g'' then 2
      else 3)"

definition complement_base :: "u8 \<Rightarrow> u8" where
  "complement_base c =
     (if c = byte_of_char CHR ''A'' then byte_of_char CHR ''T''
      else if c = byte_of_char CHR ''T'' then byte_of_char CHR ''A''
      else if c = byte_of_char CHR ''C'' then byte_of_char CHR ''G''
      else if c = byte_of_char CHR ''G'' then byte_of_char CHR ''C''
      else if c = byte_of_char CHR ''a'' then byte_of_char CHR ''t''
      else if c = byte_of_char CHR ''t'' then byte_of_char CHR ''a''
      else if c = byte_of_char CHR ''c'' then byte_of_char CHR ''g''
      else if c = byte_of_char CHR ''g'' then byte_of_char CHR ''c''
      else c)"

definition reverse_complement :: "u8 list \<Rightarrow> u8 list" where
  "reverse_complement w = map complement_base (rev w)"

definition kmer_value :: "u8 list \<Rightarrow> int" where
  "kmer_value w = foldl (\<lambda>acc c. 4 * acc + base_code c) 0 w"

text \<open>
  The naive encoder of the specification: one base per pass, shifting the accumulator by
  two bits and OR-ing the table entry into it and into the flags, then the same returns.
\<close>

fun naive_accumulate :: "u8 list \<Rightarrow> u64 \<Rightarrow> u64 \<Rightarrow> fault + (u64 \<times> u64)" where
  "naive_accumulate [] all_nucs kmer = Inr (all_nucs, kmer)"
| "naive_accumulate (c # cs) all_nucs kmer =
     (case twobit_lookup c of
        Inl e \<Rightarrow> Inl e
      | Inr nuc \<Rightarrow> naive_accumulate cs (all_nucs OR nuc) (push_bit 2 kmer OR nuc))"

definition naive_canonical_kmer :: "u8 list \<Rightarrow> u64 \<Rightarrow> fault + u64" where
  "naive_canonical_kmer window k =
     (case naive_accumulate (take (unat k) window) 0 0 of
        Inl e \<Rightarrow> Inl e
      | Inr (all_nucs, kmer) \<Rightarrow> Inr (kmer_return all_nucs kmer k))"

text \<open>
  Auxiliary notions for the proofs: the table entry of a byte widened to \<^verbatim>\<open>size_t\<close>, the
  byte classes of the table, and the flags and the packed word the loops accumulate.
\<close>

definition twobit :: "u8 \<Rightarrow> u64" where
  "twobit c = ucast (NUCLEOTIDE_TO_TWOBIT ! unat c)"

definition is_n :: "u8 \<Rightarrow> bool" where
  "is_n c = (c = byte_of_char CHR ''N'' \<or> c = byte_of_char CHR ''n'')"

definition is_ascii :: "u8 \<Rightarrow> bool" where
  "is_ascii c = (c < 128)"

definition flags_of :: "u64 \<Rightarrow> u8 list \<Rightarrow> u64" where
  "flags_of all_nucs w = foldl (\<lambda>a c. a OR twobit c) all_nucs w"

definition pack :: "u64 \<Rightarrow> u8 list \<Rightarrow> u64" where
  "pack kmer w = foldl (\<lambda>km c. push_bit 2 km OR twobit c) kmer w"

text \<open>
  Changing the case of a byte: \<open>to_upper\<close> maps the ASCII letters \<^verbatim>\<open>a\<close> to \<^verbatim>\<open>z\<close> to \<^verbatim>\<open>A\<close> to
  \<^verbatim>\<open>Z\<close> and leaves every other byte alone; two bytes differ at most in case when
  \<open>to_upper\<close> maps them to the same byte.
\<close>

definition to_upper :: "u8 \<Rightarrow> u8" where
  "to_upper c = (if 0x61 \<le> c \<and> c \<le> 0x7A then c - 32 else c)"

definition same_letter :: "u8 \<Rightarrow> u8 \<Rightarrow> bool" where
  "same_letter c d = (to_upper c = to_upper d)"

text \<open>
  Bit positions under the swap cascade of \<^verbatim>\<open>reverse_complement_kmer\<close>: a stage with block
  size \<open>s\<close> exchanges neighbouring blocks of \<open>s\<close> bits, moving the bit at \<open>flip_block s n\<close>
  to position \<open>n\<close>; for a k-mer of \<open>k\<close> bases, \<open>mirror k n\<close> is the position that bit \<open>n\<close> of
  the reversed k-mer comes from.
\<close>

definition flip_block :: "nat \<Rightarrow> nat \<Rightarrow> nat" where
  "flip_block s n = (if even (n div s) then n + s else n - s)"

definition mirror :: "nat \<Rightarrow> nat \<Rightarrow> nat" where
  "mirror k n = 2 * (k - 1 - n div 2) + n mod 2"

section \<open>Properties of the quality decoder\<close>

lemma length_write_bytes [simp]: "length (write_bytes dest off bs) = length dest"
  by (induction bs arbitrary: dest off) simp_all

lemma nth_write_bytes:
  "j < length dest \<Longrightarrow>
   write_bytes dest off bs ! j =
     (if off \<le> j \<and> j < off + length bs then bs ! (j - off) else dest ! j)"
proof (induction bs arbitrary: dest off)
  case Nil
  then show ?case by auto
next
  case (Cons b bs)
  show ?case
  proof (cases "j = off")
    case True
    with Cons show ?thesis by simp
  next
    case False
    with Cons show ?thesis by (auto simp: nth_Cons')
  qed
qed

lemma length_qualities_loop [simp]:
  "length (decode_bam_qualities_loop dest enc len i) = length dest"
proof (induction dest enc len i rule: decode_bam_qualities_loop.induct)
  case (1 dest enc len i)
  then show ?case
    by (subst decode_bam_qualities_loop.simps) simp
qed

lemma nth_qualities_loop:
  "j < length dest \<Longrightarrow>
   decode_bam_qualities_loop dest enc len i ! j =
     (if i \<le> j \<and> j < len then enc ! j + 33 else dest ! j)"
proof (induction dest enc len i rule: decode_bam_qualities_loop.induct)
  case (1 dest enc len i)
  show ?case
  proof (cases "i < len")
    case True
    consider "j < i" | "j = i" | "i < j"
      by arith
    then show ?thesis
    proof cases
      case 1
      with True "1.IH" "1.prems" show ?thesis
        by (subst decode_bam_qualities_loop.simps) (simp add: nth_list_update)
    next
      case 2
      with True "1.IH" "1.prems" show ?thesis
        by (subst decode_bam_qualities_loop.simps) (simp add: nth_list_update)
    next
      case 3
      with True "1.IH" "1.prems" show ?thesis
        by (subst decode_bam_qualities_loop.simps) (simp add: nth_list_update)
    qed
  next
    case False
    then show ?thesis
      by (subst decode_bam_qualities_loop.simps) auto
  qed
qed

lemma qualities_loop_done: "len \<le> i \<Longrightarrow> decode_bam_qualities_loop dest enc len i = dest"
  by (subst decode_bam_qualities_loop.simps) simp

lemma phred_offset_in_range:
  fixes q :: u8
  assumes "q \<le> 93"
  shows "unat (q + 33) = unat q + 33" and "33 \<le> unat (q + 33)" and "unat (q + 33) \<le> 126"
proof -
  from assms have q: "unat q \<le> 93"
    by (simp add: word_le_nat_alt)
  then show a: "unat (q + 33) = unat q + 33"
    by (simp add: unat_word_ariths)
  from a q show "33 \<le> unat (q + 33)" and "unat (q + 33) \<le> 126"
    by simp_all
qed

text \<open>
  C8. For buffers of at least \<open>n\<close> bytes, \<open>decode_bam_qualities\<close> leaves the destination with
  \<open>dest[i] = src[i] + 33\<close> (in 8-bit arithmetic) at every \<open>i < n\<close> and touches no other
  position; for source bytes in \<open>[0, 93]\<close> the sum does not wrap and lies in \<open>[33, 126]\<close>;
  for \<open>n = 0\<close> the destination is returned as it was. The function is total: it has no
  error result.
\<close>

theorem decode_bam_qualities_adds_33:
  assumes "n \<le> length dest" and "n \<le> length src"
  shows "length (decode_bam_qualities dest src n) = length dest
    \<and> (\<forall>i<n. decode_bam_qualities dest src n ! i = src ! i + 33)
    \<and> (\<forall>i<n. src ! i \<le> 93 \<longrightarrow>
           unat (decode_bam_qualities dest src n ! i) = unat (src ! i) + 33
           \<and> 33 \<le> unat (decode_bam_qualities dest src n ! i)
           \<and> unat (decode_bam_qualities dest src n ! i) \<le> 126)
    \<and> (\<forall>i. n \<le> i \<and> i < length dest \<longrightarrow> decode_bam_qualities dest src n ! i = dest ! i)
    \<and> (n = 0 \<longrightarrow> decode_bam_qualities dest src n = dest)"
proof (intro conjI)
  show "length (decode_bam_qualities dest src n) = length dest"
    by (simp add: decode_bam_qualities_def)
  show *: "\<forall>i<n. decode_bam_qualities dest src n ! i = src ! i + 33"
    using assms by (simp add: decode_bam_qualities_def nth_qualities_loop)
  show "\<forall>i<n. src ! i \<le> 93 \<longrightarrow>
           unat (decode_bam_qualities dest src n ! i) = unat (src ! i) + 33
           \<and> 33 \<le> unat (decode_bam_qualities dest src n ! i)
           \<and> unat (decode_bam_qualities dest src n ! i) \<le> 126"
    using * phred_offset_in_range by simp
  show "\<forall>i. n \<le> i \<and> i < length dest \<longrightarrow> decode_bam_qualities dest src n ! i = dest ! i"
    by (simp add: decode_bam_qualities_def nth_qualities_loop)
  show "n = 0 \<longrightarrow> decode_bam_qualities dest src n = dest"
    by (simp add: decode_bam_qualities_def qualities_loop_done)
qed

theorem decode_bam_qualities_adds_33_witness:
  "(3::nat) \<le> length [7, 7, 7, 7 :: u8] \<and> (3::nat) \<le> length [0, 40, 93 :: u8]
   \<and> decode_bam_qualities [7, 7, 7, 7] [0, 40, 93] 3 ! 2 = 126
   \<and> unat (decode_bam_qualities [7, 7, 7, 7] [0, 40, 93] 3 ! 2) = 126
   \<and> decode_bam_qualities [7, 7, 7, 7] [0, 40, 93] 3 ! 3 = 7"
proof -
  have d: "(3::nat) \<le> length [7, 7, 7, 7 :: u8]" and s: "(3::nat) \<le> length [0, 40, 93 :: u8]"
    by simp_all
  note t = decode_bam_qualities_adds_33 [OF d s]
  from t have a: "\<forall>i<3. decode_bam_qualities [7, 7, 7, 7] [0, 40, 93] 3 ! i = [0, 40, 93] ! i + 33"
    by blast
  from t have b: "\<forall>i. 3 \<le> i \<and> i < length [7, 7, 7, 7 :: u8] \<longrightarrow>
      decode_bam_qualities [7, 7, 7, 7] [0, 40, 93] 3 ! i = [7, 7, 7, 7] ! i"
    by blast
  from a have "decode_bam_qualities [7, 7, 7, 7] [0, 40, 93] 3 ! 2 = [0, 40, 93] ! 2 + 33"
    by simp
  then have a2: "decode_bam_qualities [7, 7, 7, 7] [0, 40, 93] 3 ! 2 = 126"
    by simp
  from b have "decode_bam_qualities [7, 7, 7, 7] [0, 40, 93] 3 ! 3 = [7, 7, 7, 7] ! 3"
    by simp
  then have b3: "decode_bam_qualities [7, 7, 7, 7] [0, 40, 93] 3 ! 3 = 7"
    by simp
  from a2 b3 show ?thesis by simp
qed

section \<open>The reference decoder is a table lookup per nibble\<close>

lemma code2base_pairs:
  "code2base = concat (map (\<lambda>n. [nuc_lookup ! (n div 16), nuc_lookup ! (n mod 16)]) [0..<256])"
  by code_simp

lemma nth_concat_pairs:
  "n < length xs \<Longrightarrow>
   concat (map (\<lambda>x. [f x, g x]) xs) ! (n * 2) = f (xs ! n) \<and>
   concat (map (\<lambda>x. [f x, g x]) xs) ! (n * 2 + 1) = g (xs ! n)"
proof (induction xs arbitrary: n)
  case Nil
  then show ?case by simp
next
  case (Cons x xs)
  then show ?case by (cases n) simp_all
qed

lemma and_15: "(x :: u8) AND 0x0F = take_bit 4 x"
  by (simp add: take_bit_eq_mask mask_numeral)

lemma code2base_nth:
  fixes b :: u8
  shows "code2base ! (unat b * 2) = nuc_lookup ! unat (drop_bit 4 b)"
    and "code2base ! (unat b * 2 + 1) = nuc_lookup ! unat (b AND 0x0F)"
proof -
  have lt: "unat b < 256"
    using unsigned_less [of b, where 'a = nat] by simp
  have hi: "unat (drop_bit 4 b) = unat b div 16"
    by (simp add: drop_bit_eq_div unat_div)
  have lo: "unat (b AND 0x0F) = unat b mod 16"
    unfolding and_15 by (simp add: take_bit_eq_mod unat_mod)
  have len: "unat b < length [0..<256]"
    using lt by (simp del: upt_rec_numeral)
  have nth: "[0..<256] ! unat b = unat b"
    using lt by (simp del: upt_rec_numeral)
  note p = nth_concat_pairs [where f = "\<lambda>n. nuc_lookup ! (n div 16)"
      and g = "\<lambda>n. nuc_lookup ! (n mod 16)", OF len, unfolded nth, folded code2base_pairs]
  from p show "code2base ! (unat b * 2) = nuc_lookup ! unat (drop_bit 4 b)"
    by (simp only: hi)
  from p show "code2base ! (unat b * 2 + 1) = nuc_lookup ! unat (b AND 0x0F)"
    by (simp only: lo)
qed

lemma length_code2base: "length code2base = 512"
  by (simp add: code2base_def)

lemma memcpy_code2base:
  fixes b :: u8
  shows "memcpy dest off code2base (unat b * 2) 2 =
         dest[off := nuc_lookup ! unat (drop_bit 4 b),
              Suc off := nuc_lookup ! unat (b AND 0x0F)]"
proof -
  have lt: "unat b < 256"
    using unsigned_less [of b, where 'a = nat] by simp
  then have "unat b * 2 + 1 < length code2base"
    by (simp add: length_code2base)
  then have "take 2 (drop (unat b * 2) code2base) =
      [code2base ! (unat b * 2), code2base ! (unat b * 2 + 1)]"
    by (simp add: list_eq_iff_nth_eq less_Suc_eq numeral_2_eq_2)
  then show ?thesis
    using code2base_nth [of b] by (simp add: memcpy_def)
qed

lemma length_default_loop [simp]:
  "length (decode_bam_sequence_default_loop dest enc length_2 i) = length dest"
proof (induction dest enc length_2 i rule: decode_bam_sequence_default_loop.induct)
  case (1 dest enc length_2 i)
  then show ?case
    by (subst decode_bam_sequence_default_loop.simps) (simp add: memcpy_def)
qed

lemma nth_default_loop:
  "j < length dest \<Longrightarrow>
   decode_bam_sequence_default_loop dest enc length_2 i ! j =
     (if i * 2 \<le> j \<and> j < length_2 * 2 then base_at enc j else dest ! j)"
proof (induction dest enc length_2 i rule: decode_bam_sequence_default_loop.induct)
  case (1 dest enc length_2 i)
  show ?case
  proof (cases "i < length_2")
    case False
    then show ?thesis
      by (subst decode_bam_sequence_default_loop.simps) auto
  next
    case True
    let ?d = "memcpy dest (i * 2) code2base (unat (enc ! i) * 2) 2"
    have step: "decode_bam_sequence_default_loop dest enc length_2 i =
        decode_bam_sequence_default_loop ?d enc length_2 (i + 1)"
      using True by (subst decode_bam_sequence_default_loop.simps) simp
    have len: "j < length ?d"
      using "1.prems" by (simp add: memcpy_def)
    note ih = "1.IH" [OF True len]
    consider "j < i * 2" | "j = i * 2" | "j = i * 2 + 1" | "i * 2 + 2 \<le> j"
      by linarith
    then show ?thesis
    proof cases
      case 1
      with True "1.prems" show ?thesis
        unfolding step ih by (simp add: memcpy_code2base)
    next
      case 2
      with True "1.prems" show ?thesis
        unfolding step ih
        by (simp add: memcpy_code2base base_at_def nibble_at_def nuc_lookup_def)
    next
      case 3
      with True "1.prems" show ?thesis
        unfolding step ih
        by (simp add: memcpy_code2base base_at_def nibble_at_def nuc_lookup_def)
    next
      case 4
      with True "1.prems" show ?thesis
        unfolding step ih by (simp add: memcpy_code2base)
    qed
  qed
qed

lemma length_default [simp]:
  "length (decode_bam_sequence_default dest enc n) = length dest"
  by (simp add: decode_bam_sequence_default_def Let_def)

lemma nth_default:
  assumes "n \<le> length dest" and "j < length dest"
  shows "decode_bam_sequence_default dest enc n ! j =
         (if j < n then base_at enc j else dest ! j)"
proof (cases "even n")
  case True
  then have "n AND 1 = 0" and "n div 2 * 2 = n"
    by (simp_all add: and_one_eq)
  with assms show ?thesis
    by (simp add: decode_bam_sequence_default_def Let_def nth_default_loop)
next
  case False
  then have odd: "n AND 1 \<noteq> 0" and n: "n div 2 * 2 = n - 1" and pos: "0 < n"
    by (auto simp: and_one_eq elim: oddE)
  from False have last: "base_at enc (n - 1) = nuc_lookup ! unat (drop_bit 4 (enc ! (n div 2)))"
    by (auto simp: base_at_def nibble_at_def nuc_lookup_def elim!: oddE)
  show ?thesis
  proof (cases "j = n - 1")
    case True
    with assms odd pos last show ?thesis
      by (simp add: decode_bam_sequence_default_def Let_def)
  next
    case False
    with assms odd pos n show ?thesis
      by (auto simp: decode_bam_sequence_default_def Let_def nth_default_loop)
  qed
qed

lemma default_eq_map:
  assumes "n \<le> length dest"
  shows "decode_bam_sequence_default dest enc n = map (base_at enc) [0..<n] @ drop n dest"
proof (rule nth_equalityI)
  show "length (decode_bam_sequence_default dest enc n) =
        length (map (base_at enc) [0..<n] @ drop n dest)"
    using assms by simp
  fix j
  assume "j < length (decode_bam_sequence_default dest enc n)"
  then have "j < length dest"
    by simp
  with assms show "decode_bam_sequence_default dest enc n ! j =
        (map (base_at enc) [0..<n] @ drop n dest) ! j"
    by (simp add: nth_default nth_append)
qed

section \<open>The vector loop computes the same lookup\<close>

lemma upt_0_8: "[0..<8] = [0, 1, 2, 3, 4, 5, 6, 7 :: nat]"
  by code_simp

lemma upt_0_16: "[0..<16] = [0, 1, 2, 3, 4, 5, 6, 7, 8, 9, 10, 11, 12, 13, 14, 15 :: nat]"
  by code_simp

lemma upt_16_32:
  "[16..<32] = [16, 17, 18, 19, 20, 21, 22, 23, 24, 25, 26, 27, 28, 29, 30, 31 :: nat]"
  by code_simp

lemma replicate_16: "replicate 16 a = [a, a, a, a, a, a, a, a, a, a, a, a, a, a, a, a]"
  by (simp add: numeral_eq_Suc)

lemma list16:
  assumes "length (e :: 'a list) = 16"
  obtains e0 e1 e2 e3 e4 e5 e6 e7 e8 e9 e10 e11 e12 e13 e14 e15
  where "e = [e0, e1, e2, e3, e4, e5, e6, e7, e8, e9, e10, e11, e12, e13, e14, e15]"
proof -
  from assms map_nth [of e] have "e = map (\<lambda>i. e ! i) [0..<16]"
    by simp
  then have "e = [e!0, e!1, e!2, e!3, e!4, e!5, e!6, e!7,
                  e!8, e!9, e!10, e!11, e!12, e!13, e!14, e!15]"
    by (simp add: upt_0_16)
  then show ?thesis ..
qed

lemma lane_shift4:
  fixes c0 :: u8
  shows "bytes_of_lane (drop_bit 4 (lane_of_bytes [c0, c1, c2, c3, c4, c5, c6, c7])) =
    [drop_bit 4 c0 OR push_bit 4 c1, drop_bit 4 c1 OR push_bit 4 c2,
     drop_bit 4 c2 OR push_bit 4 c3, drop_bit 4 c3 OR push_bit 4 c4,
     drop_bit 4 c4 OR push_bit 4 c5, drop_bit 4 c5 OR push_bit 4 c6,
     drop_bit 4 c6 OR push_bit 4 c7, drop_bit 4 c7]"
  unfolding bytes_of_lane_def lane_of_bytes_def upt_0_8
  by (simp, intro conjI; rule bit_eqI; auto simp: bit_simps dest: bit_imp_le_length)

lemma high_nibble_index:
  fixes a :: u8
  shows "drop_bit 4 a AND 0x0F = drop_bit 4 a" and "\<not> bit (drop_bit 4 a) 7"
proof -
  show "drop_bit 4 a AND 0x0F = drop_bit 4 a"
    unfolding and_15 by (rule bit_eqI) (auto simp: bit_simps dest: bit_imp_le_length)
  show "\<not> bit (drop_bit 4 a) 7"
    by (auto simp: bit_simps dest: bit_imp_le_length)
qed

lemma low_nibble_index:
  fixes a b :: u8
  shows "(push_bit 4 b OR a) AND 0x0F = a AND 0x0F" and "\<not> bit (a AND 0x0F) 7"
    and "(a AND 0x0F) AND 0x0F = a AND 0x0F"
proof -
  show "(push_bit 4 b OR a) AND 0x0F = a AND 0x0F"
    unfolding and_15 by (rule bit_eqI) (auto simp: bit_simps)
  show "\<not> bit (a AND 0x0F) 7"
    unfolding and_15 by (simp add: bit_simps)
  show "(a AND 0x0F) AND 0x0F = a AND 0x0F"
    unfolding and_15 by simp
qed

lemma nuc_lookup_vec_eq: "nuc_lookup_vec = nuc_lookup"
  by (simp add: nuc_lookup_vec_def mm_lddqu_si128_def nuc_lookup_def)

lemma first_nucleotides:
  assumes "length e = 16"
  shows "mm_shuffle_epi8 nuc_lookup_vec
       (mm_and_si128
         (mm_or_si128 (mm_srli_epi64 (mm_shuffle_epi8 e first_upper_shuffle) 4)
            (mm_shuffle_epi8 e first_lower_shuffle))
         (mm_set1_epi8 0b1111)) =
         map (base_at e) [0..<16]"
proof -
  from assms obtain e0 e1 e2 e3 e4 e5 e6 e7 e8 e9 e10 e11 e12 e13 e14 e15
    where e: "e = [e0, e1, e2, e3, e4, e5, e6, e7, e8, e9, e10, e11, e12, e13, e14, e15]"
    by (rule list16)
  have up: "mm_shuffle_epi8 e first_upper_shuffle =
      [e0, 0, e1, 0, e2, 0, e3, 0, e4, 0, e5, 0, e6, 0, e7, 0]"
    by (simp add: e mm_shuffle_epi8_def first_upper_shuffle_def)
  have lo: "mm_shuffle_epi8 e first_lower_shuffle =
      [0, e0, 0, e1, 0, e2, 0, e3, 0, e4, 0, e5, 0, e6, 0, e7]"
    by (simp add: e mm_shuffle_epi8_def first_lower_shuffle_def)
  have sh: "mm_srli_epi64 [e0, 0, e1, 0, e2, 0, e3, 0, e4, 0, e5, 0, e6, 0, e7, 0] 4 =
      [drop_bit 4 e0, push_bit 4 e1, drop_bit 4 e1, push_bit 4 e2,
       drop_bit 4 e2, push_bit 4 e3, drop_bit 4 e3, 0,
       drop_bit 4 e4, push_bit 4 e5, drop_bit 4 e5, push_bit 4 e6,
       drop_bit 4 e6, push_bit 4 e7, drop_bit 4 e7, 0]"
    by (simp add: mm_srli_epi64_def lane_shift4)
  show ?thesis
    unfolding up lo sh upt_0_16
    by (simp add: mm_or_si128_def mm_and_si128_def mm_set1_epi8_def mm_shuffle_epi8_def
        replicate_16 high_nibble_index low_nibble_index nuc_lookup_vec_eq
        base_at_def nibble_at_def nuc_lookup_def e)
qed

lemma second_nucleotides:
  assumes "length e = 16"
  shows "mm_shuffle_epi8 nuc_lookup_vec
       (mm_and_si128
         (mm_or_si128 (mm_srli_epi64 (mm_shuffle_epi8 e second_upper_shuffle) 4)
            (mm_shuffle_epi8 e second_lower_shuffle))
         (mm_set1_epi8 0b1111)) =
         map (base_at e) [16..<32]"
proof -
  from assms obtain e0 e1 e2 e3 e4 e5 e6 e7 e8 e9 e10 e11 e12 e13 e14 e15
    where e: "e = [e0, e1, e2, e3, e4, e5, e6, e7, e8, e9, e10, e11, e12, e13, e14, e15]"
    by (rule list16)
  have up: "mm_shuffle_epi8 e second_upper_shuffle =
      [e8, 0, e9, 0, e10, 0, e11, 0, e12, 0, e13, 0, e14, 0, e15, 0]"
    by (simp add: e mm_shuffle_epi8_def second_upper_shuffle_def)
  have lo: "mm_shuffle_epi8 e second_lower_shuffle =
      [0, e8, 0, e9, 0, e10, 0, e11, 0, e12, 0, e13, 0, e14, 0, e15]"
    by (simp add: e mm_shuffle_epi8_def second_lower_shuffle_def)
  have sh: "mm_srli_epi64 [e8, 0, e9, 0, e10, 0, e11, 0, e12, 0, e13, 0, e14, 0, e15, 0] 4 =
      [drop_bit 4 e8, push_bit 4 e9, drop_bit 4 e9, push_bit 4 e10,
       drop_bit 4 e10, push_bit 4 e11, drop_bit 4 e11, 0,
       drop_bit 4 e12, push_bit 4 e13, drop_bit 4 e13, push_bit 4 e14,
       drop_bit 4 e14, push_bit 4 e15, drop_bit 4 e15, 0]"
    by (simp add: mm_srli_epi64_def lane_shift4)
  show ?thesis
    unfolding up lo sh upt_16_32
    by (simp add: mm_or_si128_def mm_and_si128_def mm_set1_epi8_def mm_shuffle_epi8_def
        replicate_16 high_nibble_index low_nibble_index nuc_lookup_vec_eq
        base_at_def nibble_at_def nuc_lookup_def e)
qed

lemma base_at_drop: "ec \<le> length enc \<Longrightarrow> base_at (drop ec enc) j = base_at enc (ec * 2 + j)"
  by (simp add: base_at_def nibble_at_def)

lemma base_at_take: "j < 2 * m \<Longrightarrow> base_at (take m enc) j = base_at enc j"
  by (simp add: base_at_def nibble_at_def)

lemma write_bytes_append:
  "write_bytes dest off (xs @ ys) = write_bytes (write_bytes dest off xs) (off + length xs) ys"
  by (induction xs arbitrary: dest off) simp_all

lemma ssse3_body_eq:
  assumes "encoded_cursor + 16 \<le> length enc"
  shows "decode_bam_sequence_ssse3_body dest enc dest_cursor encoded_cursor =
         write_bytes dest dest_cursor
           (map (\<lambda>j. base_at enc (encoded_cursor * 2 + j)) [0..<32])"
proof -
  let ?e = "mm_lddqu_si128 enc encoded_cursor"
  from assms have len: "length ?e = 16"
    by (simp add: mm_lddqu_si128_def)
  have at: "base_at ?e j = base_at enc (encoded_cursor * 2 + j)" if "j < 32" for j
    using that assms by (simp add: mm_lddqu_si128_def base_at_take base_at_drop)
  have split: "[0..<32] = [0..<16] @ [16..<32]"
    using upt_add_eq_append [of 0 16 16] by simp
  have m1: "map (base_at ?e) [0..<16] = map (\<lambda>j. base_at enc (encoded_cursor * 2 + j)) [0..<16]"
    by (rule map_cong [OF refl]) (simp add: at del: upt_rec_numeral)
  have m2: "map (base_at ?e) [16..<32] = map (\<lambda>j. base_at enc (encoded_cursor * 2 + j)) [16..<32]"
    by (rule map_cong [OF refl]) (simp add: at del: upt_rec_numeral)
  show ?thesis
    unfolding decode_bam_sequence_ssse3_body_def Let_def
      first_nucleotides [OF len] second_nucleotides [OF len] m1 m2 split
    by (simp add: mm_storeu_si128_def write_bytes_append del: upt_rec_numeral)
qed

lemma nth_ssse3_body:
  assumes "encoded_cursor + 16 \<le> length enc" and "j < length dest"
  shows "decode_bam_sequence_ssse3_body dest enc dest_cursor encoded_cursor ! j =
         (if dest_cursor \<le> j \<and> j < dest_cursor + 32
          then base_at enc (encoded_cursor * 2 + (j - dest_cursor)) else dest ! j)"
proof (cases "dest_cursor \<le> j \<and> j < dest_cursor + 32")
  case True
  then have "j - dest_cursor < 32"
    by arith
  then have "map (\<lambda>j. base_at enc (encoded_cursor * 2 + j)) [0..<32] ! (j - dest_cursor) =
      base_at enc (encoded_cursor * 2 + (j - dest_cursor))"
    by (simp del: upt_rec_numeral)
  with True assms show ?thesis
    by (simp add: ssse3_body_eq nth_write_bytes del: upt_rec_numeral)
next
  case False
  with assms show ?thesis
    by (auto simp: ssse3_body_eq nth_write_bytes simp del: upt_rec_numeral)
qed

lemma length_ssse3_body [simp]:
  "length (decode_bam_sequence_ssse3_body dest enc dest_cursor encoded_cursor) = length dest"
  by (simp add: decode_bam_sequence_ssse3_body_def Let_def mm_storeu_si128_def)

lemma ssse3_loop_invariant:
  assumes "n \<le> length dest" and "(n + 1) div 2 \<le> length enc"
    and "dest_cursor = encoded_cursor * 2"
    and "decode_bam_sequence_ssse3_loop dest enc (int n - 32) dest_cursor encoded_cursor =
         (dest', dest_cursor', encoded_cursor')"
  shows "length dest' = length dest \<and> dest_cursor' = encoded_cursor' * 2
     \<and> dest_cursor \<le> dest_cursor' \<and> (dest_cursor \<le> n \<longrightarrow> dest_cursor' \<le> n)
     \<and> (\<forall>j<length dest. dest' ! j =
           (if dest_cursor \<le> j \<and> j < dest_cursor' then base_at enc j else dest ! j))"
  using assms
proof (induction dest enc "int n - 32" dest_cursor encoded_cursor
    rule: decode_bam_sequence_ssse3_loop.induct)
  case (1 dest enc dc ec)
  show ?case
  proof (cases "int dc < int n - 32")
    case False
    with "1.prems" show ?thesis
      by (subst (asm) decode_bam_sequence_ssse3_loop.simps) auto
  next
    case True
    let ?d = "decode_bam_sequence_ssse3_body dest enc dc ec"
    from True "1.prems" have room: "ec + 16 \<le> length enc" "dc + 32 < n"
      by simp_all
    have run: "decode_bam_sequence_ssse3_loop ?d enc (int n - 32) (dc + 2 * 16) (ec + 16) =
        (dest', dest_cursor', encoded_cursor')"
      using True "1.prems"(4) by (subst (asm) decode_bam_sequence_ssse3_loop.simps) simp
    have ih: "length dest' = length ?d \<and> dest_cursor' = encoded_cursor' * 2
       \<and> dc + 2 * 16 \<le> dest_cursor' \<and> (dc + 2 * 16 \<le> n \<longrightarrow> dest_cursor' \<le> n)
       \<and> (\<forall>j<length ?d. dest' ! j =
           (if dc + 2 * 16 \<le> j \<and> j < dest_cursor' then base_at enc j else ?d ! j))"
      using "1.prems"(1,2,3) by (intro "1.hyps" [OF True _ _ _ run]) simp_all
    have "dest' ! j = (if dc \<le> j \<and> j < dest_cursor' then base_at enc j else dest ! j)"
      if "j < length dest" for j
    proof -
      from that ih have "dest' ! j =
          (if dc + 2 * 16 \<le> j \<and> j < dest_cursor' then base_at enc j else ?d ! j)"
        by simp
      moreover have "?d ! j = (if dc \<le> j \<and> j < dc + 32
          then base_at enc (ec * 2 + (j - dc)) else dest ! j)"
        using room that by (simp add: nth_ssse3_body)
      moreover have "ec * 2 + (j - dc) = j" if "dc \<le> j"
        using that "1.prems"(3) by simp
      ultimately show ?thesis
        using ih by auto
    qed
    with ih room show ?thesis
      by simp
  qed
qed

lemma ssse3_decodes:
  assumes "n \<le> length dest" and "(n + 1) div 2 \<le> length enc"
  shows "length (decode_bam_sequence_ssse3 dest enc n) = length dest"
    and "j < length dest \<Longrightarrow>
         decode_bam_sequence_ssse3 dest enc n ! j = (if j < n then base_at enc j else dest ! j)"
proof -
  obtain dest' dc ec
    where run: "decode_bam_sequence_ssse3_loop dest enc (int n - 32) 0 0 = (dest', dc, ec)"
    by (cases "decode_bam_sequence_ssse3_loop dest enc (int n - 32) 0 0") auto
  from ssse3_loop_invariant [OF assms _ run]
  have len: "length dest' = length dest" and dc: "dc = ec * 2" and le: "dc \<le> n"
    and front: "\<And>j. j < length dest \<Longrightarrow>
        dest' ! j = (if j < dc then base_at enc j else dest ! j)"
    by simp_all
  have res: "decode_bam_sequence_ssse3 dest enc n =
      take dc dest' @ decode_bam_sequence_default (drop dc dest') (drop ec enc) (n - dc)"
    by (simp add: decode_bam_sequence_ssse3_def run)
  from le assms len show "length (decode_bam_sequence_ssse3 dest enc n) = length dest"
    by (simp add: res)
  show "decode_bam_sequence_ssse3 dest enc n ! j = (if j < n then base_at enc j else dest ! j)"
    if j: "j < length dest"
  proof (cases "j < dc")
    case True
    with j le assms len front [OF j] show ?thesis
      by (simp add: res nth_append)
  next
    case False
    from dc le assms have ec: "ec \<le> length enc"
      by arith
    from False j le assms len
    have "decode_bam_sequence_default (drop dc dest') (drop ec enc) (n - dc) ! (j - dc) =
        (if j - dc < n - dc then base_at (drop ec enc) (j - dc) else drop dc dest' ! (j - dc))"
      by (intro nth_default) simp_all
    moreover from False dc have "ec * 2 + (j - dc) = j"
      by simp
    moreover from False have "j - dc < n - dc \<longleftrightarrow> j < n"
      by arith
    ultimately show ?thesis
      using False j le assms len front [OF j]
      by (simp add: res nth_append base_at_drop [OF ec])
  qed
qed

section \<open>Claims about the nucleotide decoder\<close>

text \<open>
  C1. Whenever the destination holds at least \<open>n\<close> bytes and the packed source at least
  \<open>(n + 1) div 2\<close>, \<open>decode_bam_sequence_ssse3\<close> leaves the destination buffer in exactly the
  state \<open>decode_bam_sequence_default\<close> leaves it in. This covers \<open>n = 0\<close>, \<open>n = 1\<close>, every
  \<open>n\<close> up to 64 and beyond, and every value of every packed byte.
\<close>

theorem ssse3_equals_default:
  assumes "n \<le> length dest" and "(n + 1) div 2 \<le> length enc"
  shows "decode_bam_sequence_ssse3 dest enc n = decode_bam_sequence_default dest enc n"
proof (rule nth_equalityI)
  show "length (decode_bam_sequence_ssse3 dest enc n) =
        length (decode_bam_sequence_default dest enc n)"
    using assms by (simp add: ssse3_decodes(1))
  fix j
  assume "j < length (decode_bam_sequence_ssse3 dest enc n)"
  with assms have j: "j < length dest"
    by (simp add: ssse3_decodes(1))
  with assms show "decode_bam_sequence_ssse3 dest enc n ! j =
        decode_bam_sequence_default dest enc n ! j"
    by (simp add: ssse3_decodes(2) nth_default)
qed

theorem ssse3_equals_default_witness:
  "(35::nat) \<le> length (replicate 36 (0::u8))
   \<and> (35 + 1) div 2 \<le> length ([0x12, 0x48, 0xFF, 0x00, 0x35, 0x67, 0x9A, 0xBC, 0xDE, 0x21, 0x84, 0x18, 0x42, 0x81, 0x24, 0x11, 0x28, 0x40] :: u8 list)
   \<and> decode_bam_sequence_ssse3 (replicate 36 0) [0x12, 0x48, 0xFF, 0x00, 0x35, 0x67, 0x9A, 0xBC, 0xDE, 0x21, 0x84, 0x18, 0x42, 0x81, 0x24, 0x11, 0x28, 0x40] 35 =
       map byte_of_char ''ACGTNN==MRSVWYHKDBCATGATGCTACGAACTG'' @ [0]"
proof -
  let ?enc = "[0x12, 0x48, 0xFF, 0x00, 0x35, 0x67, 0x9A, 0xBC, 0xDE, 0x21, 0x84, 0x18, 0x42, 0x81, 0x24, 0x11, 0x28, 0x40] :: u8 list"
  have d: "(35::nat) \<le> length (replicate 36 (0::u8))"
    by simp
  have e: "(35 + 1) div 2 \<le> length ?enc"
    by simp
  have r: "decode_bam_sequence_default (replicate 36 0) ?enc 35 =
      map (base_at ?enc) [0..<35] @ drop 35 (replicate 36 0)"
    by (rule default_eq_map) simp
  have v: "map (base_at ?enc) [0..<35] @ drop 35 (replicate 36 0) =
      map byte_of_char ''ACGTNN==MRSVWYHKDBCATGATGCTACGAACTG'' @ [0]"
    by code_simp
  have "decode_bam_sequence_ssse3 (replicate 36 0) ?enc 35 =
      map byte_of_char ''ACGTNN==MRSVWYHKDBCATGATGCTACGAACTG'' @ [0]"
    using ssse3_equals_default [OF d e] r v by (simp only:)
  with d e show ?thesis
    by (intro conjI)
qed

text \<open>
  C7. Under the same contract the reference decoder writes exactly the first \<open>n\<close> bytes of
  the destination: position \<open>i < n\<close> receives the character of \<^verbatim>\<open>=ACMGRSVTWYHKDBN\<close> selected
  by the \<open>i\<close>-th 4-bit code (high nibble of byte \<open>i div 2\<close> for even \<open>i\<close>, low nibble for odd
  \<open>i\<close>), every later position keeps its old content, and two positions with equal codes
  receive equal characters. For odd \<open>n\<close> the last character comes from the high nibble of
  byte \<open>n div 2\<close>.
\<close>

theorem default_decodes_nibbles:
  assumes "n \<le> length dest" and "(n + 1) div 2 \<le> length enc"
  shows "length (decode_bam_sequence_default dest enc n) = length dest
    \<and> (\<forall>i<n. decode_bam_sequence_default dest enc n ! i =
          map byte_of_char ''=ACMGRSVTWYHKDBN'' !
            unat (if even i then drop_bit 4 (enc ! (i div 2)) else enc ! (i div 2) AND 0x0F))
    \<and> (\<forall>i. n \<le> i \<and> i < length dest \<longrightarrow> decode_bam_sequence_default dest enc n ! i = dest ! i)
    \<and> (\<forall>i<n. \<forall>j<n. nibble_at enc i = nibble_at enc j \<longrightarrow>
          decode_bam_sequence_default dest enc n ! i = decode_bam_sequence_default dest enc n ! j)
    \<and> (odd n \<longrightarrow> decode_bam_sequence_default dest enc n ! (n - 1) =
          map byte_of_char ''=ACMGRSVTWYHKDBN'' ! unat (drop_bit 4 (enc ! (n div 2))))"
proof (intro conjI)
  show "length (decode_bam_sequence_default dest enc n) = length dest"
    by simp
  show "\<forall>i<n. decode_bam_sequence_default dest enc n ! i =
          map byte_of_char ''=ACMGRSVTWYHKDBN'' !
            unat (if even i then drop_bit 4 (enc ! (i div 2)) else enc ! (i div 2) AND 0x0F)"
    using assms(1) by (simp add: nth_default base_at_def nibble_at_def)
  show "\<forall>i. n \<le> i \<and> i < length dest \<longrightarrow> decode_bam_sequence_default dest enc n ! i = dest ! i"
    using assms(1) by (simp add: nth_default)
  show "\<forall>i<n. \<forall>j<n. nibble_at enc i = nibble_at enc j \<longrightarrow>
          decode_bam_sequence_default dest enc n ! i = decode_bam_sequence_default dest enc n ! j"
    using assms(1) by (simp add: nth_default base_at_def)
  show "odd n \<longrightarrow> decode_bam_sequence_default dest enc n ! (n - 1) =
          map byte_of_char ''=ACMGRSVTWYHKDBN'' ! unat (drop_bit 4 (enc ! (n div 2)))"
  proof
    assume "odd n"
    then have "0 < n" and "even (n - 1)" and "(n - 1) div 2 = n div 2"
      by (auto elim: oddE)
    with assms(1) show "decode_bam_sequence_default dest enc n ! (n - 1) =
          map byte_of_char ''=ACMGRSVTWYHKDBN'' ! unat (drop_bit 4 (enc ! (n div 2)))"
      by (simp add: nth_default base_at_def nibble_at_def)
  qed
qed

theorem default_decodes_nibbles_witness:
  "(5::nat) \<le> length [9, 9, 9, 9, 9, 9 :: u8]
   \<and> (5 + 1) div 2 \<le> length [0x12, 0x48, 0xF0 :: u8]
   \<and> decode_bam_sequence_default [9, 9, 9, 9, 9, 9] [0x12, 0x48, 0xF0] 5 ! 3 =
       byte_of_char CHR ''T''
   \<and> decode_bam_sequence_default [9, 9, 9, 9, 9, 9] [0x12, 0x48, 0xF0] 5 ! 4 =
       byte_of_char CHR ''N''
   \<and> decode_bam_sequence_default [9, 9, 9, 9, 9, 9] [0x12, 0x48, 0xF0] 5 ! 5 = 9"
proof -
  have d: "(5::nat) \<le> length [9, 9, 9, 9, 9, 9 :: u8]"
    and e: "(5 + 1) div 2 \<le> length [0x12, 0x48, 0xF0 :: u8]"
    by simp_all
  note t = default_decodes_nibbles [OF d e]
  from t have a: "\<forall>i<5. decode_bam_sequence_default [9, 9, 9, 9, 9, 9] [0x12, 0x48, 0xF0] 5 ! i =
      map byte_of_char ''=ACMGRSVTWYHKDBN'' !
        unat (if even i then drop_bit 4 ([0x12, 0x48, 0xF0 :: u8] ! (i div 2))
              else [0x12, 0x48, 0xF0] ! (i div 2) AND 0x0F)"
    by blast
  from t have b: "\<forall>i. 5 \<le> i \<and> i < length [9, 9, 9, 9, 9, 9 :: u8] \<longrightarrow>
      decode_bam_sequence_default [9, 9, 9, 9, 9, 9] [0x12, 0x48, 0xF0] 5 ! i =
      [9, 9, 9, 9, 9, 9] ! i"
    by blast
  from a have a3: "decode_bam_sequence_default [9, 9, 9, 9, 9, 9] [0x12, 0x48, 0xF0] 5 ! 3 =
      byte_of_char CHR ''T''"
    by simp
  from a have a4: "decode_bam_sequence_default [9, 9, 9, 9, 9, 9] [0x12, 0x48, 0xF0] 5 ! 4 =
      byte_of_char CHR ''N''"
    by simp
  from b have b5: "decode_bam_sequence_default [9, 9, 9, 9, 9, 9] [0x12, 0x48, 0xF0] 5 ! 5 = 9"
    by simp
  from a3 a4 b5 show ?thesis
    by simp
qed

section \<open>The two loops of the k-mer encoder\<close>

lemma signed_take_bit_small:
  fixes x :: int
  assumes "- 4 \<le> x" and "x \<le> 32"
  shows "signed_take_bit 63 x = x"
proof (rule signed_take_bit_int_eq_self)
  have "- (2 ^ 63) \<le> (- 4 :: int)"
    by simp
  from this assms(1) show "- (2 ^ 63) \<le> x"
    by (rule order_trans)
  have "(32 :: int) < 2 ^ 63"
    by simp
  from assms(2) this show "x < 2 ^ 63"
    by (rule le_less_trans)
qed

lemma small_k:
  fixes k :: u64
  assumes "k \<le> 32"
  shows "uint k \<le> 32" and "sint k = uint k" and "sint (k - 4) = uint k - 4"
proof -
  from assms show le: "uint k \<le> 32"
    by (simp add: word_le_def)
  have nn: "0 \<le> uint k"
    by simp
  have "sint k = signed_take_bit 63 (uint k)"
    by (simp add: sint_uint)
  also have "\<dots> = uint k"
    using le nn by (intro signed_take_bit_small) linarith+
  finally show "sint k = uint k" .
  have "k - 4 = word_of_int (uint k - 4)"
    by simp
  then have "sint (k - 4) = signed_take_bit 63 (uint k - 4)"
    by (simp only: sint_uint uint_word_of_int_eq) (simp add: signed_take_bit_take_bit)
  also have "\<dots> = uint k - 4"
    using le nn by (intro signed_take_bit_small) linarith+
  finally show "sint (k - 4) = uint k - 4" .
qed

lemma tail_loop_is_naive:
  assumes "k \<le> length w" and "i \<le> k"
  shows "kmer_tail_loop w (int k) i a km = naive_accumulate (drop i (take k w)) a km"
  using assms
proof (induction w "int k" i a km rule: kmer_tail_loop.induct)
  case (1 w i a km)
  show ?case
  proof (cases "i < k")
    case False
    with "1.prems" show ?thesis
      by (subst kmer_tail_loop.simps) simp
  next
    case True
    with "1.prems" have cons: "drop i (take k w) = w ! i # drop (Suc i) (take k w)"
      by (simp add: Cons_nth_drop_Suc [symmetric])
    show ?thesis
    proof (cases "twobit_lookup (w ! i)")
      case (Inl e)
      with True show ?thesis
        by (subst kmer_tail_loop.simps) (simp add: cons)
    next
      case (Inr nuc)
      from True have lt: "int i < int k"
        by simp
      from "1.hyps" [OF lt Inr "1.prems"(1)] True
      have "kmer_tail_loop w (int k) (i + 1) (a OR nuc) (push_bit 2 km OR nuc) =
          naive_accumulate (drop (i + 1) (take k w)) (a OR nuc) (push_bit 2 km OR nuc)"
        by simp
      with True Inr show ?thesis
        by (subst kmer_tail_loop.simps) (simp add: cons)
    qed
  qed
qed

lemma naive_four:
  assumes "i + 4 \<le> k" and "k \<le> length w"
  shows "naive_accumulate (drop i (take k w)) a km =
         bind_fault (kmer_chunk w i a km)
           (\<lambda>(a', km'). naive_accumulate (drop (i + 4) (take k w)) a' km')"
proof -
  have step: "drop j (take k w) = w ! j # drop (Suc j) (take k w)" if "j < k" for j
    using that assms(2) by (simp add: Cons_nth_drop_Suc [symmetric])
  from assms(1) have "drop i (take k w) =
      w ! i # w ! (i + 1) # w ! (i + 2) # w ! (i + 3) # drop (i + 4) (take k w)"
    using step [of i] step [of "i + 1"] step [of "i + 2"] step [of "i + 3"]
    by (simp add: numeral_eq_Suc)
  then show ?thesis
    by (simp add: kmer_chunk_def bind_fault_def Let_def push_bit_or ac_simps
        split: sum.splits)
qed

lemma chunk_loop_then_tail:
  assumes "k \<le> length w" and "i \<le> k"
  shows "bind_fault (kmer_chunk_loop w (int k - 4) i a km)
           (\<lambda>(i', a', km'). kmer_tail_loop w (int k) i' a' km') =
         naive_accumulate (drop i (take k w)) a km"
  using assms
proof (induction w "int k - 4" i a km rule: kmer_chunk_loop.induct)
  case (1 w i a km)
  show ?case
  proof (cases "int i < int k - 4")
    case False
    with "1.prems" show ?thesis
      by (subst kmer_chunk_loop.simps) (simp add: bind_fault_def tail_loop_is_naive)
  next
    case True
    then have room: "i + 4 \<le> k"
      by simp
    note four = naive_four [OF room "1.prems"(1), of a km]
    show ?thesis
    proof (cases "kmer_chunk w i a km")
      case (Inl e)
      with True four show ?thesis
        by (subst kmer_chunk_loop.simps) (simp add: bind_fault_def)
    next
      case (Inr p)
      obtain a' km' where p: "p = (a', km')"
        by (cases p)
      from "1.hyps" [OF True Inr [unfolded p] refl "1.prems"(1)] room
      have "bind_fault (kmer_chunk_loop w (int k - 4) (i + 4) a' km')
              (\<lambda>(i', a', km'). kmer_tail_loop w (int k) i' a' km') =
            naive_accumulate (drop (i + 4) (take k w)) a' km'"
        by simp
      with True Inr p four show ?thesis
        by (subst kmer_chunk_loop.simps) (simp add: bind_fault_def)
    qed
  qed
qed

lemma canonical_kmer_unfold:
  assumes "k \<le> 32" and "unat k \<le> length w"
  shows "sequence_to_canonical_kmer w k =
         (case naive_accumulate (take (unat k) w) 0 0 of
            Inl e \<Rightarrow> Inl e
          | Inr (all_nucs, kmer) \<Rightarrow> Inr (kmer_return all_nucs kmer k))"
proof -
  from small_k [OF assms(1)]
  have k: "sint k = int (unat k)" and k4: "sint (k - 4) = int (unat k) - 4"
    by simp_all
  from chunk_loop_then_tail [OF assms(2), of 0 0 0]
  have "bind_fault (kmer_chunk_loop w (int (unat k) - 4) 0 0 0)
           (\<lambda>(i', a', km'). kmer_tail_loop w (int (unat k)) i' a' km') =
         naive_accumulate (take (unat k) w) 0 0"
    by simp
  then show ?thesis
    unfolding sequence_to_canonical_kmer_def Let_def k k4
    by (auto simp: bind_fault_def split: sum.splits prod.splits)
qed

text \<open>
  C6. For every window of at least \<open>k\<close> bytes and every \<open>k\<close> from 1 to 32, the encoder
  that takes four bases per pass returns exactly what the naive encoder returns that takes
  one base per pass: the same k-mer, the same error value, or the same fault.
\<close>

theorem chunked_equals_naive:
  assumes "1 \<le> k" and "k \<le> 32" and "unat k \<le> length window"
  shows "sequence_to_canonical_kmer window k = naive_canonical_kmer window k"
  unfolding naive_canonical_kmer_def
  using assms(2,3) by (rule canonical_kmer_unfold)

theorem chunked_equals_naive_witness:
  "(1 :: u64) \<le> 13 \<and> (13 :: u64) \<le> 32
   \<and> unat (13 :: u64) \<le> length (map byte_of_char ''GATTACAGATTAC'')
   \<and> sequence_to_canonical_kmer (map byte_of_char ''GATTACAGATTAC'') 13 = Inr 37505265
   \<and> naive_canonical_kmer (map byte_of_char ''GATTACAGATTAC'') 13 = Inr 37505265"
proof -
  have a: "(1 :: u64) \<le> 13" and b: "(13 :: u64) \<le> 32"
    and c: "unat (13 :: u64) \<le> length (map byte_of_char ''GATTACAGATTAC'')"
    by simp_all
  have v: "naive_canonical_kmer (map byte_of_char ''GATTACAGATTAC'') 13 = Inr 37505265"
    by code_simp
  from chunked_equals_naive [OF a b c] v
  have "sequence_to_canonical_kmer (map byte_of_char ''GATTACAGATTAC'') 13 = Inr 37505265"
    by (simp only:)
  with a b c v show ?thesis
    by (intro conjI)
qed

section \<open>Byte classes and the returned value\<close>

lemma ascii_cases:
  fixes c :: u8
  assumes "is_ascii c"
  shows "c \<in> set (map of_nat [0..<128])"
proof -
  from assms have "unat c < 128"
    by (simp add: is_ascii_def word_less_nat_alt)
  then have "c \<in> of_nat ` {0..<128}"
    by (intro image_eqI [where x = "unat c"]) simp_all
  then show ?thesis
    by (simp del: upt_rec_numeral)
qed

lemma table_classes_all:
  "\<forall>c \<in> set (map of_nat [0..<128] :: u8 list).
     twobit c = (if is_acgt c then word_of_int (base_code c) else if is_n c then 8 else 4)"
  by code_simp

lemma table_classes:
  "is_ascii c \<Longrightarrow>
   twobit c = (if is_acgt c then word_of_int (base_code c) else if is_n c then 8 else 4)"
  using table_classes_all ascii_cases by blast

lemma twobit_lookup_ascii:
  "twobit_lookup c = (if is_ascii c then Inr (twobit c) else Inl TableOverrun)"
  by (simp add: twobit_lookup_def twobit_def is_ascii_def word_less_nat_alt
      NUCLEOTIDE_TO_TWOBIT_def)

lemma naive_accumulate_ascii:
  "\<forall>c\<in>set ws. is_ascii c \<Longrightarrow>
   naive_accumulate ws a km = Inr (flags_of a ws, pack km ws)"
  by (induction ws arbitrary: a km) (simp_all add: twobit_lookup_ascii flags_of_def pack_def)

lemma naive_accumulate_fault:
  "(naive_accumulate ws a km = Inl TableOverrun) \<longleftrightarrow> (\<exists>c\<in>set ws. \<not> is_ascii c)"
  by (induction ws arbitrary: a km) (auto simp: twobit_lookup_ascii)

lemma bit_flags_of:
  "bit (flags_of a ws) n \<longleftrightarrow> bit a n \<or> (\<exists>c\<in>set ws. bit (twobit c) n)"
  by (induction ws arbitrary: a) (auto simp: flags_of_def bit_or_iff)

lemma is_n_not_acgt: "is_n c \<Longrightarrow> \<not> is_acgt c"
  by (auto simp: is_n_def is_acgt_def byte_of_char_def)

lemma twobit_bit2:
  assumes "is_ascii c"
  shows "bit (twobit c) 2 \<longleftrightarrow> \<not> is_acgt c \<and> \<not> is_n c"
  using is_n_not_acgt [of c]
  by (auto simp: table_classes [OF assms] base_code_def)

lemma twobit_bit3:
  assumes "is_ascii c"
  shows "bit (twobit c) 3 \<longleftrightarrow> is_n c"
  using is_n_not_acgt [of c]
  by (auto simp: table_classes [OF assms] base_code_def)

lemma kmer_return_cases:
  "kmer_return a km k =
     (if bit a 2 then TWOBIT_UNKNOWN_CHAR
      else if bit a 3 then TWOBIT_N_CHAR
      else if km < reverse_complement_kmer km k then km else reverse_complement_kmer km k)"
proof -
  have four: "a AND 4 = 0 \<longleftrightarrow> \<not> bit a 2"
    using and_exp_eq_0_iff_not_bit [of a 2] by simp
  have eight: "a AND 8 = 0 \<longleftrightarrow> \<not> bit a 3"
    using and_exp_eq_0_iff_not_bit [of a 3] by simp
  have low: "\<not> bit a 2 \<and> \<not> bit a 3" if "\<not> 3 < a"
  proof -
    from that have "a < 2 ^ 2"
      by (simp add: word_le_def word_less_def)
    then have "a AND mask 2 = a"
      by (rule less_mask_eq)
    then have "take_bit 2 a = a"
      by (simp add: take_bit_eq_mask)
    then have "bit a n \<longleftrightarrow> bit (take_bit 2 a) n" for n
      by simp
    then have *: "bit a n \<longleftrightarrow> n < 2 \<and> bit a n" for n
      by (simp only: bit_take_bit_iff)
    from * [of 2] * [of 3] show ?thesis
      by simp
  qed
  then show ?thesis
    by (auto simp: kmer_return_def Let_def four eight)
qed

lemma canonical_kmer_ascii:
  assumes "k \<le> 32" and "unat k \<le> length w" and "\<forall>c\<in>set (take (unat k) w). is_ascii c"
  shows "sequence_to_canonical_kmer w k =
     Inr (if \<exists>c\<in>set (take (unat k) w). \<not> is_acgt c \<and> \<not> is_n c then TWOBIT_UNKNOWN_CHAR
          else if \<exists>c\<in>set (take (unat k) w). is_n c then TWOBIT_N_CHAR
          else if pack 0 (take (unat k) w) < reverse_complement_kmer (pack 0 (take (unat k) w)) k
               then pack 0 (take (unat k) w)
               else reverse_complement_kmer (pack 0 (take (unat k) w)) k)"
proof -
  let ?ws = "take (unat k) w"
  have b2: "bit (flags_of 0 ?ws) 2 \<longleftrightarrow> (\<exists>c\<in>set ?ws. \<not> is_acgt c \<and> \<not> is_n c)"
    using assms(3) by (auto simp: bit_flags_of twobit_bit2)
  have b3: "bit (flags_of 0 ?ws) 3 \<longleftrightarrow> (\<exists>c\<in>set ?ws. is_n c)"
    using assms(3) by (auto simp: bit_flags_of twobit_bit3)
  show ?thesis
    unfolding canonical_kmer_unfold [OF assms(1,2)] naive_accumulate_ascii [OF assms(3)]
    by (simp only: sum.case prod.case kmer_return_cases b2 b3)
qed

section \<open>Faults and error returns\<close>

lemma acgt_or_n_ascii: "is_acgt c \<or> is_n c \<Longrightarrow> is_ascii c"
  by (auto simp: is_acgt_def is_n_def is_ascii_def byte_of_char_def)

lemma bex_take:
  assumes "n \<le> length w"
  shows "(\<exists>c\<in>set (take n w). P c) \<longleftrightarrow> (\<exists>i<n. P (w ! i))"
proof
  assume "\<exists>c\<in>set (take n w). P c"
  then obtain i where "i < length (take n w)" and "P (take n w ! i)"
    by (auto simp: in_set_conv_nth)
  then have "i < n \<and> P (w ! i)"
    by simp
  then show "\<exists>i<n. P (w ! i)"
    by blast
next
  assume "\<exists>i<n. P (w ! i)"
  then obtain i where i: "i < n" and p: "P (w ! i)"
    by blast
  from i assms have "take n w ! i \<in> set (take n w)"
    by (intro nth_mem) simp
  with i p show "\<exists>c\<in>set (take n w). P c"
    by auto
qed

text \<open>
  C10. For \<open>1 \<le> k \<le> 32\<close> and a window of at least \<open>k\<close> bytes, the call runs into a read
  past the end of the 128-entry table exactly when one of the first \<open>k\<close> bytes is 128 or
  more; if all of them are 7-bit ASCII, every lookup stays inside the table and the call
  returns a value.
\<close>

theorem table_overrun_iff_non_ascii:
  assumes "1 \<le> k" and "k \<le> 32" and "unat k \<le> length w"
  shows "(sequence_to_canonical_kmer w k = Inl TableOverrun \<longleftrightarrow> (\<exists>i<unat k. 128 \<le> w ! i))
       \<and> ((\<forall>i<unat k. w ! i < 128) \<longrightarrow> (\<exists>r. sequence_to_canonical_kmer w k = Inr r))"
proof -
  have "sequence_to_canonical_kmer w k = Inl TableOverrun \<longleftrightarrow>
      naive_accumulate (take (unat k) w) 0 0 = Inl TableOverrun"
    unfolding canonical_kmer_unfold [OF assms(2,3)]
    by (auto split: sum.splits)
  also have "\<dots> \<longleftrightarrow> (\<exists>i<unat k. \<not> is_ascii (w ! i))"
    by (simp add: naive_accumulate_fault bex_take [OF assms(3)])
  also have "\<dots> \<longleftrightarrow> (\<exists>i<unat k. 128 \<le> w ! i)"
    by (simp add: is_ascii_def not_less)
  finally have fault: "sequence_to_canonical_kmer w k = Inl TableOverrun \<longleftrightarrow>
      (\<exists>i<unat k. 128 \<le> w ! i)" .
  have "\<exists>r. sequence_to_canonical_kmer w k = Inr r" if "\<forall>i<unat k. w ! i < 128"
  proof (cases "sequence_to_canonical_kmer w k")
    case (Inl e)
    then have "sequence_to_canonical_kmer w k = Inl TableOverrun"
      by (cases e) simp
    with fault that show ?thesis
      by (auto simp: not_less [symmetric])
  next
    case (Inr r)
    then show ?thesis
      by blast
  qed
  with fault show ?thesis
    by blast
qed

theorem table_overrun_iff_non_ascii_witness:
  "(1 :: u64) \<le> 2 \<and> (2 :: u64) \<le> 32 \<and> unat (2 :: u64) \<le> length [0x41, 0x80 :: u8]
   \<and> (128 :: u8) \<le> [0x41, 0x80] ! 1
   \<and> sequence_to_canonical_kmer [0x41, 0x80] 2 = Inl TableOverrun"
proof -
  have a: "(1 :: u64) \<le> 2" and b: "(2 :: u64) \<le> 32"
    and c: "unat (2 :: u64) \<le> length [0x41, 0x80 :: u8]"
    by simp_all
  have d: "(128 :: u8) \<le> [0x41, 0x80] ! 1"
    by simp
  then have "\<exists>i<unat (2 :: u64). (128 :: u8) \<le> [0x41, 0x80] ! i"
    by (intro exI [of _ 1]) simp
  with table_overrun_iff_non_ascii [OF a b c]
  have "sequence_to_canonical_kmer [0x41, 0x80] 2 = Inl TableOverrun"
    by blast
  with a b c d show ?thesis
    by (intro conjI)
qed

text \<open>
  C4, as stated, fails: \<^verbatim>\<open>R\<close> is an IUPAC ambiguity code, but the table gives it the value
  4 of an unknown character, so the window \<^verbatim>\<open>ACGR\<close> returns \<^verbatim>\<open>TWOBIT_UNKNOWN_CHAR\<close>.
\<close>

theorem iupac_code_is_unknown_counterexample:
  "sequence_to_canonical_kmer (map byte_of_char ''ACGR'') 4 = Inr TWOBIT_UNKNOWN_CHAR
   \<and> sequence_to_canonical_kmer (map byte_of_char ''ACGR'') 4 \<noteq> Inr TWOBIT_N_CHAR"
  by code_simp

text \<open>
  C4, amended. For \<open>1 \<le> k \<le> 32\<close>, if each of the first \<open>k\<close> bytes of the window is one of
  A, C, G, T in either case or is \<^verbatim>\<open>N\<close> or \<^verbatim>\<open>n\<close>, and at least one of them is \<^verbatim>\<open>N\<close> or \<^verbatim>\<open>n\<close>,
  the encoder returns \<^verbatim>\<open>TWOBIT_N_CHAR\<close>.
\<close>

theorem n_window_returns_n_char:
  assumes "1 \<le> k" and "k \<le> 32" and "unat k \<le> length w"
    and "\<forall>c\<in>set (take (unat k) w). is_acgt c \<or> is_n c"
    and "\<exists>c\<in>set (take (unat k) w). is_n c"
  shows "sequence_to_canonical_kmer w k = Inr TWOBIT_N_CHAR"
proof -
  let ?ws = "take (unat k) w"
  from assms(4) have ascii: "\<forall>c\<in>set ?ws. is_ascii c"
    by (auto simp: acgt_or_n_ascii)
  from assms(4) have no_unknown: "\<not> (\<exists>c\<in>set ?ws. \<not> is_acgt c \<and> \<not> is_n c)"
    by auto
  show ?thesis
    unfolding canonical_kmer_ascii [OF assms(2,3) ascii]
    using no_unknown assms(5) by (simp only: if_True if_False)
qed

theorem n_window_returns_n_char_witness:
  "(1 :: u64) \<le> 4 \<and> (4 :: u64) \<le> 32 \<and> unat (4 :: u64) \<le> length (map byte_of_char ''AcgN'')
   \<and> (\<exists>c\<in>set (take (unat (4 :: u64)) (map byte_of_char ''AcgN'')). is_n c)
   \<and> sequence_to_canonical_kmer (map byte_of_char ''AcgN'') 4 = Inr TWOBIT_N_CHAR"
proof -
  have a: "(1 :: u64) \<le> 4" and b: "(4 :: u64) \<le> 32"
    and c: "unat (4 :: u64) \<le> length (map byte_of_char ''AcgN'')"
    by simp_all
  have d: "\<forall>c\<in>set (take (unat (4 :: u64)) (map byte_of_char ''AcgN'')). is_acgt c \<or> is_n c"
    by code_simp
  have e: "\<exists>c\<in>set (take (unat (4 :: u64)) (map byte_of_char ''AcgN'')). is_n c"
    by code_simp
  from n_window_returns_n_char [OF a b c d e] a b c e show ?thesis
    by (intro conjI)
qed

section \<open>Upper and lower case\<close>

lemma lower_case_letters_all:
  "\<forall>c \<in> set (map of_nat [97..<123] :: u8 list). twobit_lookup (c - 32) = twobit_lookup c"
  by code_simp

lemma twobit_lookup_to_upper: "twobit_lookup (to_upper c) = twobit_lookup c"
proof (cases "0x61 \<le> c \<and> c \<le> 0x7A")
  case False
  then show ?thesis
    by (auto simp: to_upper_def)
next
  case True
  then have "97 \<le> unat c" and "unat c < 123"
    by (simp_all add: word_le_nat_alt)
  then have "c \<in> of_nat ` {97..<123}"
    by (intro image_eqI [where x = "unat c"]) simp_all
  then have "c \<in> set (map of_nat [97..<123] :: u8 list)"
    by (simp del: upt_rec_numeral)
  with lower_case_letters_all have "twobit_lookup (c - 32) = twobit_lookup c"
    by blast
  with True show ?thesis
    by (simp add: to_upper_def)
qed

lemma same_letter_lookup: "same_letter c d \<Longrightarrow> twobit_lookup c = twobit_lookup d"
  using twobit_lookup_to_upper [of c] twobit_lookup_to_upper [of d]
  by (simp add: same_letter_def)

lemma naive_accumulate_same_letters:
  "list_all2 same_letter ws ws' \<Longrightarrow> naive_accumulate ws a km = naive_accumulate ws' a km"
proof (induction ws ws' arbitrary: a km rule: list_all2_induct)
  case Nil
  then show ?case by simp
next
  case (Cons c ws d ws')
  from Cons.hyps(1) have "twobit_lookup c = twobit_lookup d"
    by (rule same_letter_lookup)
  with Cons.IH show ?case
    by (simp split: sum.splits)
qed

text \<open>
  C9. For \<open>1 \<le> k \<le> 32\<close>, if \<open>w'\<close> arises from the window \<open>w\<close> by changing the case of any of
  its letters, the encoder returns on \<open>w'\<close> what it returns on \<open>w\<close>: the table gives a
  lower-case letter the entry of its upper-case form, for the four bases and for every
  other letter alike.
\<close>

theorem case_change_same_result:
  assumes "1 \<le> k" and "k \<le> 32" and "unat k \<le> length w"
    and "list_all2 same_letter w w'"
  shows "sequence_to_canonical_kmer w' k = sequence_to_canonical_kmer w k"
proof -
  from assms(4) have len: "length w' = length w"
    by (simp add: list_all2_lengthD)
  with assms(3) have k': "unat k \<le> length w'"
    by simp
  from assms(4) have "list_all2 same_letter (take (unat k) w) (take (unat k) w')"
    by (rule list_all2_takeI)
  then have "naive_accumulate (take (unat k) w) 0 0 = naive_accumulate (take (unat k) w') 0 0"
    by (rule naive_accumulate_same_letters)
  then show ?thesis
    by (simp only: canonical_kmer_unfold [OF assms(2,3)] canonical_kmer_unfold [OF assms(2) k'])
qed

theorem case_change_same_result_witness:
  "(1 :: u64) \<le> 7 \<and> (7 :: u64) \<le> 32 \<and> unat (7 :: u64) \<le> length (map byte_of_char ''GATTACA'')
   \<and> list_all2 same_letter (map byte_of_char ''GATTACA'') (map byte_of_char ''gAtTaCa'')
   \<and> sequence_to_canonical_kmer (map byte_of_char ''GATTACA'') 7 = Inr 9156
   \<and> sequence_to_canonical_kmer (map byte_of_char ''gAtTaCa'') 7 = Inr 9156"
proof -
  have a: "(1 :: u64) \<le> 7" and b: "(7 :: u64) \<le> 32"
    and c: "unat (7 :: u64) \<le> length (map byte_of_char ''GATTACA'')"
    by simp_all
  have d: "list_all2 same_letter (map byte_of_char ''GATTACA'') (map byte_of_char ''gAtTaCa'')"
    by code_simp
  have v: "sequence_to_canonical_kmer (map byte_of_char ''GATTACA'') 7 = Inr 9156"
    by code_simp
  from case_change_same_result [OF a b c d] v
  have "sequence_to_canonical_kmer (map byte_of_char ''gAtTaCa'') 7 = Inr 9156"
    by (simp only:)
  with a b c d v show ?thesis
    by (intro conjI)
qed

section \<open>The swap cascade reverses the 2-bit groups\<close>

lemma masks_all:
  "\<forall>m\<in>set [0..<64].
     bit (0xFFFF0000FFFF0000 :: u64) m = odd (m div 16) \<and>
     bit (0x0000FFFF0000FFFF :: u64) m = even (m div 16) \<and>
     bit (0xFF00FF00FF00FF00 :: u64) m = odd (m div 8) \<and>
     bit (0x00FF00FF00FF00FF :: u64) m = even (m div 8) \<and>
     bit (0xF0F0F0F0F0F0F0F0 :: u64) m = odd (m div 4) \<and>
     bit (0x0F0F0F0F0F0F0F0F :: u64) m = even (m div 4) \<and>
     bit (0xCCCCCCCCCCCCCCCC :: u64) m = odd (m div 2) \<and>
     bit (0x3333333333333333 :: u64) m = even (m div 2)"
  by code_simp

lemma flips_all:
  "\<forall>n\<in>set [0..<64].
     flip_block 2 n < 64 \<and> flip_block 4 n < 64 \<and> flip_block 8 n < 64 \<and>
     flip_block 16 n < 64 \<and> flip_block 32 n < 64 \<and>
     (even (n div 2) \<longrightarrow> n + 2 < 64) \<and> (even (n div 4) \<longrightarrow> n + 4 < 64) \<and>
     (even (n div 8) \<longrightarrow> n + 8 < 64) \<and> (even (n div 16) \<longrightarrow> n + 16 < 64) \<and>
     flip_block 32 (flip_block 16 (flip_block 8 (flip_block 4 (flip_block 2 n)))) = mirror 32 n"
  by code_simp

lemma below_64: "n < 64 \<Longrightarrow> n \<in> set [0..<64]"
  by (simp del: upt_rec_numeral)

lemma masks:
  assumes "m < 64"
  shows "bit (0xFFFF0000FFFF0000 :: u64) m = odd (m div 16)"
    and "bit (0x0000FFFF0000FFFF :: u64) m = even (m div 16)"
    and "bit (0xFF00FF00FF00FF00 :: u64) m = odd (m div 8)"
    and "bit (0x00FF00FF00FF00FF :: u64) m = even (m div 8)"
    and "bit (0xF0F0F0F0F0F0F0F0 :: u64) m = odd (m div 4)"
    and "bit (0x0F0F0F0F0F0F0F0F :: u64) m = even (m div 4)"
    and "bit (0xCCCCCCCCCCCCCCCC :: u64) m = odd (m div 2)"
    and "bit (0x3333333333333333 :: u64) m = even (m div 2)"
  using masks_all below_64 [OF assms] by blast+

lemma flips:
  assumes "n < 64"
  shows "flip_block 2 n < 64" and "flip_block 4 n < 64" and "flip_block 8 n < 64"
    and "flip_block 16 n < 64" and "flip_block 32 n < 64"
    and "even (n div 2) \<Longrightarrow> n + 2 < 64" and "even (n div 4) \<Longrightarrow> n + 4 < 64"
    and "even (n div 8) \<Longrightarrow> n + 8 < 64" and "even (n div 16) \<Longrightarrow> n + 16 < 64"
    and "flip_block 32 (flip_block 16 (flip_block 8 (flip_block 4 (flip_block 2 n)))) =
         mirror 32 n"
  using flips_all below_64 [OF assms] by blast+

lemma swap_stage:
  fixes x hi lo :: u64
  assumes s: "0 < s"
    and hi: "\<And>m. m < 64 \<Longrightarrow> bit hi m = odd (m div s)"
    and lo: "\<And>m. m < 64 \<Longrightarrow> bit lo m = even (m div s)"
    and room: "even (n div s) \<Longrightarrow> n + s < 64"
    and n: "n < 64"
  shows "bit (drop_bit s (x AND hi) OR push_bit s (x AND lo)) n = bit x (flip_block s n)"
proof -
  have expand: "bit (drop_bit s (x AND hi) OR push_bit s (x AND lo)) n \<longleftrightarrow>
      (bit x (n + s) \<and> bit hi (n + s)) \<or> (s \<le> n \<and> bit x (n - s) \<and> bit lo (n - s))"
    using n by (auto simp: bit_simps add.commute)
  show ?thesis
proof (cases "even (n div s)")
  case True
  with room have up: "n + s < 64"
    by simp
  from s have "(n + s) div s = Suc (n div s)"
    using le_div_geq [of s "n + s"] by simp
  with True hi [OF up] have h: "bit hi (n + s)"
    by simp
  have "\<not> bit lo (n - s)" if "s \<le> n"
  proof -
    from that s have "n div s = Suc ((n - s) div s)"
      by (simp add: le_div_geq)
    with True have "odd ((n - s) div s)"
      by simp
    moreover from n have "n - s < 64"
      by simp
    ultimately show ?thesis
      by (simp add: lo)
  qed
  with True h show ?thesis
    unfolding expand by (auto simp: flip_block_def)
next
  case False
  with s have ge: "s \<le> n"
    by (cases "n < s") simp_all
  with s have "n div s = Suc ((n - s) div s)"
    by (simp add: le_div_geq)
  with False have "even ((n - s) div s)"
    by simp
  moreover from n have "n - s < 64"
    by simp
  ultimately have l: "bit lo (n - s)"
    by (simp add: lo)
  have "\<not> (bit x (n + s) \<and> bit hi (n + s))"
  proof (cases "n + s < 64")
    case True
    from s have "(n + s) div s = Suc (n div s)"
      using le_div_geq [of s "n + s"] by simp
    with False hi [OF True] show ?thesis
      by simp
  next
    case False
    then have "\<not> bit x (n + s)"
      by (auto dest: bit_imp_le_length)
    then show ?thesis
      by simp
  qed
  with False l ge show ?thesis
    unfolding expand by (auto simp: flip_block_def)
qed
qed

lemma swap_halves:
  fixes c :: u64
  assumes "n < 64"
  shows "bit (push_bit 32 c OR drop_bit 32 c) n = bit c (flip_block 32 n)"
proof (cases "n < 32")
  case True
  with assms show ?thesis
    by (auto simp: flip_block_def bit_simps add.commute)
next
  case False
  with assms have "n div 32 = 1"
    by simp
  moreover have "\<not> bit c (32 + n)"
    using False by (auto dest: bit_imp_le_length)
  ultimately show ?thesis
    using False assms by (auto simp: flip_block_def bit_simps)
qed

lemma shift_count:
  fixes k :: u64
  assumes "1 \<le> k" and "k \<le> 32"
  shows "unat (64 - k * 2) = 64 - 2 * unat k" and "1 \<le> unat k" and "unat k \<le> 32"
proof -
  from assms have lo: "1 \<le> uint k" and hi: "uint k \<le> 32"
    by (simp_all add: word_le_def)
  then show "1 \<le> unat k" and "unat k \<le> 32"
    unfolding unat_eq_nat_uint by linarith+
  have "64 - k * 2 = word_of_int (64 - uint k * 2)"
    by simp
  moreover have "take_bit 64 (64 - uint k * 2) = 64 - uint k * 2"
  proof (rule take_bit_int_eq_self)
    from hi show "0 \<le> 64 - uint k * 2"
      by simp
    have "64 - uint k * 2 \<le> 64"
      using lo by simp
    also have "(64 :: int) < 2 ^ 64"
      by simp
    finally show "64 - uint k * 2 < 2 ^ 64" .
  qed
  ultimately have "uint (64 - k * 2) = 64 - uint k * 2"
    by (simp only: uint_word_of_int_eq) simp
  with lo hi show "unat (64 - k * 2) = 64 - 2 * unat k"
    unfolding unat_eq_nat_uint by linarith
qed

lemma mirror_shift:
  assumes "K \<le> 32" and "n < 2 * K"
  shows "mirror 32 (n + (64 - 2 * K)) = mirror K n"
proof -
  from assms(1) have e: "64 - 2 * K = 2 * (32 - K)"
    by simp
  have d: "(n + 2 * (32 - K)) div 2 = n div 2 + (32 - K)"
    by simp
  have m: "(n + 2 * (32 - K)) mod 2 = n mod 2"
    by simp
  from assms(2) have q: "n div 2 < K"
    by (simp add: div_less_iff_less_mult mult.commute)
  from q assms(1) have "32 - 1 - (n div 2 + (32 - K)) = K - 1 - n div 2"
    by simp
  then show ?thesis
    unfolding mirror_def e d m by simp
qed

lemma bit_reverse_complement_kmer:
  fixes kmer k :: u64
  assumes "1 \<le> k" and "k \<le> 32"
  shows "bit (reverse_complement_kmer kmer k) n \<longleftrightarrow>
         n < 2 * unat k \<and> \<not> bit kmer (mirror (unat k) n)"
proof -
  define c where "c = NOT kmer"
  define r1 where "r1 = push_bit 32 c OR drop_bit 32 c"
  define r2 where "r2 = drop_bit 16 (r1 AND 0xFFFF0000FFFF0000) OR
                        push_bit 16 (r1 AND 0x0000FFFF0000FFFF)"
  define r3 where "r3 = drop_bit 8 (r2 AND 0xFF00FF00FF00FF00) OR
                        push_bit 8 (r2 AND 0x00FF00FF00FF00FF)"
  define r4 where "r4 = drop_bit 4 (r3 AND 0xF0F0F0F0F0F0F0F0) OR
                        push_bit 4 (r3 AND 0x0F0F0F0F0F0F0F0F)"
  define r5 where "r5 = drop_bit 2 (r4 AND 0xCCCCCCCCCCCCCCCC) OR
                        push_bit 2 (r4 AND 0x3333333333333333)"
  have rc: "reverse_complement_kmer kmer k = drop_bit (unat (64 - k * 2)) r5"
    unfolding reverse_complement_kmer_def Let_def r5_def r4_def r3_def r2_def r1_def c_def
    by (rule refl)
  have b1: "bit r1 m = bit c (flip_block 32 m)" if "m < 64" for m
    unfolding r1_def using that by (rule swap_halves)
  have b2: "bit r2 m = bit r1 (flip_block 16 m)" if "m < 64" for m
    unfolding r2_def
    by (rule swap_stage [OF _ masks(1) masks(2) flips(9) that]) (simp_all add: that)
  have b3: "bit r3 m = bit r2 (flip_block 8 m)" if "m < 64" for m
    unfolding r3_def
    by (rule swap_stage [OF _ masks(3) masks(4) flips(8) that]) (simp_all add: that)
  have b4: "bit r4 m = bit r3 (flip_block 4 m)" if "m < 64" for m
    unfolding r4_def
    by (rule swap_stage [OF _ masks(5) masks(6) flips(7) that]) (simp_all add: that)
  have b5: "bit r5 m = bit r4 (flip_block 2 m)" if "m < 64" for m
    unfolding r5_def
    by (rule swap_stage [OF _ masks(7) masks(8) flips(6) that]) (simp_all add: that)
  have all: "bit r5 m = bit c (mirror 32 m)" if "m < 64" for m
  proof -
    let ?m2 = "flip_block 2 m"
    let ?m4 = "flip_block 4 ?m2"
    let ?m8 = "flip_block 8 ?m4"
    let ?m16 = "flip_block 16 ?m8"
    have m2: "?m2 < 64"
      using that by (rule flips(1))
    then have m4: "?m4 < 64"
      by (rule flips(2))
    then have m8: "?m8 < 64"
      by (rule flips(3))
    then have m16: "?m16 < 64"
      by (rule flips(4))
    have "bit r5 m = bit c (flip_block 32 ?m16)"
      by (simp only: b5 [OF that] b4 [OF m2] b3 [OF m4] b2 [OF m8] b1 [OF m16])
    then show ?thesis
      by (simp only: flips(10) [OF that])
  qed
  note k = shift_count [OF assms]
  show ?thesis
  proof (cases "n < 2 * unat k")
    case False
    with k have "\<not> n + (64 - 2 * unat k) < 64"
      by simp
    then have "\<not> bit r5 (n + (64 - 2 * unat k))"
      by (auto dest: bit_imp_le_length)
    with False show ?thesis
      by (simp add: rc k(1) bit_simps add.commute)
  next
    case True
    with k have lt: "n + (64 - 2 * unat k) < 64"
      by simp
    from True k have "mirror 32 (n + (64 - 2 * unat k)) = mirror (unat k) n"
      by (intro mirror_shift)
    moreover from True k have "mirror (unat k) n < 64"
      unfolding mirror_def by simp
    ultimately show ?thesis
      using True all [OF lt]
      by (simp add: rc k(1) c_def bit_simps add.commute)
  qed
qed

section \<open>Reverse complement and the canonical k-mer\<close>

lemma acgt_all:
  "\<forall>c\<in>set (map byte_of_char ''ACGTacgt'').
     is_ascii c \<and> is_acgt (complement_base c) \<and> complement_base (complement_base c) = c \<and>
     twobit (complement_base c) = twobit c XOR 3 \<and>
     twobit c = word_of_int (base_code c) \<and> 0 \<le> base_code c \<and> base_code c < 4 \<and>
     twobit c AND 3 = twobit c"
  by code_simp

lemma acgt:
  assumes "is_acgt c"
  shows "is_ascii c" and "is_acgt (complement_base c)"
    and "complement_base (complement_base c) = c"
    and "twobit (complement_base c) = twobit c XOR 3"
    and "twobit c = word_of_int (base_code c)" and "0 \<le> base_code c" and "base_code c < 4"
    and "twobit c AND 3 = twobit c"
  using acgt_all assms unfolding is_acgt_def by blast+

lemma bit_twobit_acgt:
  assumes "is_acgt c"
  shows "bit (twobit c) m \<Longrightarrow> m < 2"
    and "m < 2 \<Longrightarrow> bit (twobit (complement_base c)) m \<longleftrightarrow> \<not> bit (twobit c) m"
proof -
  have three: "(3 :: u64) = mask 2"
    by (simp add: mask_numeral)
  from acgt(8) [OF assms] have e: "twobit c AND mask 2 = twobit c"
    by (simp only: three)
  show "m < 2" if "bit (twobit c) m"
  proof -
    from that have "bit (twobit c AND mask 2) m"
      by (simp only: e)
    then show ?thesis
      by (simp add: bit_simps)
  qed
  show "bit (twobit (complement_base c)) m \<longleftrightarrow> \<not> bit (twobit c) m" if "m < 2"
    using that unfolding acgt(4) [OF assms] three by (simp add: bit_simps)
qed

lemma pack_snoc: "pack km (w @ [c]) = push_bit 2 (pack km w) OR twobit c"
  by (simp add: pack_def)

lemma bit_pack:
  assumes "\<forall>c\<in>set w. is_acgt c"
  shows "bit (pack 0 w) n \<longleftrightarrow>
         n < 2 * length w \<and> n < 64 \<and> bit (twobit (w ! (length w - 1 - n div 2))) (n mod 2)"
  using assms
proof (induction w arbitrary: n rule: rev_induct)
  case Nil
  then show ?case
    by (simp add: pack_def)
next
  case (snoc c w)
  from snoc.prems have c: "is_acgt c" and w: "\<forall>c\<in>set w. is_acgt c"
    by simp_all
  note ih = snoc.IH [OF w]
  show ?case
  proof (cases "n < 2")
    case True
    then have "n div 2 = 0" and "n mod 2 = n"
      by simp_all
    with True show ?thesis
      by (simp add: pack_snoc bit_simps)
  next
    case False
    then have ge: "2 \<le> n"
      by simp
    then have d: "(n - 2) div 2 = n div 2 - 1" and m: "(n - 2) mod 2 = n mod 2"
      and pos: "1 \<le> n div 2"
      using le_div_geq [of 2 n] le_mod_geq [of 2 n] by simp_all
    from False bit_twobit_acgt(1) [OF c] have "\<not> bit (twobit c) n"
      by blast
    moreover from pos have "(w @ [c]) ! (length (w @ [c]) - 1 - n div 2) =
        w ! (length w - 1 - (n div 2 - 1))" if "n < 2 * length (w @ [c])"
    proof -
      from that have "n div 2 < length w + 1"
        by (simp add: div_less_iff_less_mult mult.commute)
      with pos have "length (w @ [c]) - 1 - n div 2 < length w"
        and "length (w @ [c]) - 1 - n div 2 = length w - 1 - (n div 2 - 1)"
        by simp_all
      then show ?thesis
        by (simp add: nth_append)
    qed
    ultimately show ?thesis
      using ge ih [of "n - 2"] by (auto simp: pack_snoc bit_simps d m)
  qed
qed

lemma mirror_parts:
  assumes "n < 2 * K"
  shows "mirror K n div 2 = K - 1 - n div 2" and "mirror K n mod 2 = n mod 2"
    and "mirror K n < 2 * K" and "K - 1 - (K - 1 - n div 2) = n div 2"
proof -
  from assms have q: "n div 2 < K"
    by (simp add: div_less_iff_less_mult mult.commute)
  show "mirror K n div 2 = K - 1 - n div 2" and "mirror K n mod 2 = n mod 2"
    unfolding mirror_def by simp_all
  have "n mod 2 < 2"
    by simp
  with q show "mirror K n < 2 * K"
    unfolding mirror_def by linarith
  from q show "K - 1 - (K - 1 - n div 2) = n div 2"
    by simp
qed

lemma reverse_complement_valid:
  "\<forall>c\<in>set w. is_acgt c \<Longrightarrow> \<forall>c\<in>set (reverse_complement w). is_acgt c"
  by (auto simp: reverse_complement_def acgt(2))

lemma reverse_complement_involution:
  "\<forall>c\<in>set w. is_acgt c \<Longrightarrow> reverse_complement (reverse_complement w) = w"
  by (induction w) (simp_all add: reverse_complement_def acgt(3))

lemma length_reverse_complement [simp]: "length (reverse_complement w) = length w"
  by (simp add: reverse_complement_def)

lemma reverse_complement_kmer_pack:
  assumes valid: "\<forall>c\<in>set w. is_acgt c"
    and k: "1 \<le> k" "k \<le> 32" and len: "length w = unat k"
  shows "reverse_complement_kmer (pack 0 w) k = pack 0 (reverse_complement w)"
proof (rule bit_eqI)
  fix n
  note kk = shift_count [OF k]
  show "bit (reverse_complement_kmer (pack 0 w) k) n \<longleftrightarrow> bit (pack 0 (reverse_complement w)) n"
  proof (cases "n < 2 * unat k")
    case False
    then show ?thesis
      by (simp add: bit_reverse_complement_kmer [OF k]
          bit_pack [OF reverse_complement_valid [OF valid]] len)
  next
    case True
    note mp = mirror_parts [OF True]
    from True kk have n64: "n < 64" and m64: "mirror (unat k) n < 64"
      using mp(3) by simp_all
    from True have q: "n div 2 < length w"
      by (simp add: len div_less_iff_less_mult mult.commute)
    then have mem: "w ! (n div 2) \<in> set w"
      by simp
    with valid have c: "is_acgt (w ! (n div 2))"
      by blast
    have "n mod 2 < 2"
      by simp
    note flip = bit_twobit_acgt(2) [OF c this]
    from q have idx: "length w - 1 - n div 2 < length w"
      by simp
    from q have "rev w ! (length w - 1 - n div 2) = w ! (n div 2)"
      by (simp add: rev_nth)
    with idx have r: "reverse_complement w ! (length w - 1 - n div 2) =
        complement_base (w ! (n div 2))"
      by (simp add: reverse_complement_def)
    have lhs: "bit (reverse_complement_kmer (pack 0 w) k) n \<longleftrightarrow>
        \<not> bit (twobit (w ! (n div 2))) (n mod 2)"
      using True m64 mp(3)
      by (simp add: bit_reverse_complement_kmer [OF k] bit_pack [OF valid] len mp(1,2,4))
    have rhs: "bit (pack 0 (reverse_complement w)) n \<longleftrightarrow>
        bit (twobit (complement_base (w ! (n div 2)))) (n mod 2)"
      using True n64 r
      by (simp add: bit_pack [OF reverse_complement_valid [OF valid]] len)
    show ?thesis
      unfolding lhs rhs flip ..
  qed
qed

lemma kmer_value_snoc: "kmer_value (w @ [c]) = 4 * kmer_value w + base_code c"
  by (simp add: kmer_value_def)

lemma kmer_value_bounds:
  "\<forall>c\<in>set w. is_acgt c \<Longrightarrow> 0 \<le> kmer_value w \<and> kmer_value w < 4 ^ length w"
proof (induction w rule: rev_induct)
  case Nil
  then show ?case
    by (simp add: kmer_value_def)
next
  case (snoc c w)
  then have "0 \<le> kmer_value w" and "kmer_value w + 1 \<le> 4 ^ length w"
    and "0 \<le> base_code c" and "base_code c < 4"
    by (simp_all add: acgt(6,7))
  then show ?case
    by (simp add: kmer_value_snoc)
qed

lemma pack_is_kmer_value:
  "\<forall>c\<in>set w. is_acgt c \<Longrightarrow> pack 0 w = word_of_int (kmer_value w)"
proof (induction w rule: rev_induct)
  case Nil
  then show ?case
    by (simp add: pack_def kmer_value_def)
next
  case (snoc c w)
  then have c: "is_acgt c" and ih: "pack 0 w = word_of_int (kmer_value w)"
    by simp_all
  have "push_bit 2 (pack 0 w) AND twobit c = 0"
    by (rule bit_eqI) (auto simp: bit_simps dest: bit_twobit_acgt(1) [OF c])
  then have "push_bit 2 (pack 0 w) OR twobit c = push_bit 2 (pack 0 w) + twobit c"
    by (simp add: disjunctive_add_eq_or)
  then show ?case
    by (simp add: pack_snoc kmer_value_snoc ih acgt(5) [OF c] push_bit_eq_mult)
qed

lemma uint_pack:
  assumes "\<forall>c\<in>set w. is_acgt c" and "length w \<le> 32"
  shows "uint (pack 0 w) = kmer_value w"
proof -
  from kmer_value_bounds [OF assms(1)]
  have nn: "0 \<le> kmer_value w" and lt: "kmer_value w < 4 ^ length w"
    by simp_all
  from assms(2) have "(4 :: int) ^ length w \<le> 4 ^ 32"
    by (intro power_increasing) simp_all
  also have "(4 :: int) ^ 32 = 2 ^ 64"
    by simp
  finally have "kmer_value w < 2 ^ 64"
    using lt by simp
  with nn have "take_bit 64 (kmer_value w) = kmer_value w"
    by (rule take_bit_int_eq_self)
  then show ?thesis
    by (simp add: pack_is_kmer_value [OF assms(1)] uint_word_of_int_eq)
qed

lemma uint_top_bit:
  fixes w :: u64
  shows "uint w = 2 ^ 63 * of_bool (bit w 63) + take_bit 63 (uint w)"
proof -
  have "uint w < 2 ^ Suc 63"
    using uint_lt2p [of w] by simp
  then have "take_bit (Suc 63) (uint w) = uint w"
    by (intro take_bit_int_eq_self) simp_all
  then have "uint w = 2 ^ 63 * of_bool (bit (uint w) 63) + take_bit 63 (uint w)"
    by (simp only: take_bit_Suc_from_most)
  then show ?thesis
    by (simp only: bit_uint_iff) simp
qed

lemma top_bit_order:
  fixes a b :: u64
  assumes "bit a 63" and "\<not> bit b 63"
  shows "b < a"
proof -
  have "uint b = take_bit 63 (uint b)"
    using uint_top_bit [of b] assms(2) by simp
  also have "\<dots> < 2 ^ 63"
    by (rule take_bit_int_less_exp)
  also have "\<dots> \<le> 2 ^ 63 + take_bit 63 (uint a)"
    by simp
  also have "\<dots> = uint a"
    using uint_top_bit [of a] assms(1) by simp
  finally show ?thesis
    by (simp add: word_less_def)
qed

lemma canonical_kmer_valid:
  assumes k: "1 \<le> k" "k \<le> 32" and len: "length w = unat k"
    and valid: "\<forall>c\<in>set w. is_acgt c"
  shows "sequence_to_canonical_kmer w k =
     Inr (if pack 0 w < pack 0 (reverse_complement w)
          then pack 0 w else pack 0 (reverse_complement w))"
proof -
  from len have t: "take (unat k) w = w" and le: "unat k \<le> length w"
    by simp_all
  from valid have ascii: "\<forall>c\<in>set (take (unat k) w). is_ascii c"
    by (simp add: t acgt(1))
  from valid have no_unknown: "\<not> (\<exists>c\<in>set w. \<not> is_acgt c \<and> \<not> is_n c)"
    and no_n: "\<not> (\<exists>c\<in>set w. is_n c)"
    using is_n_not_acgt by blast+
  show ?thesis
    unfolding canonical_kmer_ascii [OF k(2) le ascii] t
      reverse_complement_kmer_pack [OF valid k len]
    using no_unknown no_n by (simp only: if_False)
qed

lemma sentinel_bits:
  "bit TWOBIT_UNKNOWN_CHAR 63" "bit TWOBIT_UNKNOWN_CHAR 1"
  "bit TWOBIT_N_CHAR 63" "bit TWOBIT_N_CHAR 1"
  by (simp_all add: TWOBIT_UNKNOWN_CHAR_def TWOBIT_N_CHAR_def bit_simps)

lemma canonical_not_sentinel:
  assumes k: "1 \<le> k" "k \<le> 32" and len: "length w = unat k"
    and valid: "\<forall>c\<in>set w. is_acgt c"
    and r: "sequence_to_canonical_kmer w k = Inr r"
  shows "r \<noteq> TWOBIT_UNKNOWN_CHAR" and "r \<noteq> TWOBIT_N_CHAR"
proof -
  let ?x = "pack 0 w" and ?y = "pack 0 (reverse_complement w)"
  have y: "?y = reverse_complement_kmer ?x k"
    by (simp only: reverse_complement_kmer_pack [OF valid k len])
  from r have r_def: "r = (if ?x < ?y then ?x else ?y)"
    by (simp add: canonical_kmer_valid [OF k len valid])
  have False if top: "bit r 63" and one: "bit r 1"
  proof -
    note valid' = reverse_complement_valid [OF valid]
    have "63 < 2 * length w"
    proof (cases "?x < ?y")
      case True
      with top r_def have "bit ?x 63"
        by simp
      then show ?thesis
        by (simp add: bit_pack [OF valid])
    next
      case False
      with top r_def have "bit ?y 63"
        by simp
      then show ?thesis
        by (simp add: bit_pack [OF valid'])
    qed
    with shift_count(3) [OF k] have K: "unat k = 32"
      by (simp add: len)
    have m63: "mirror 32 63 = 1" and m1: "mirror 32 (Suc 0) = 63"
      by (simp_all add: mirror_def)
    have y63: "bit ?y 63 \<longleftrightarrow> \<not> bit ?x 1" and y1: "bit ?y 1 \<longleftrightarrow> \<not> bit ?x 63"
      unfolding y by (simp_all add: bit_reverse_complement_kmer [OF k] K m63 m1)
    show False
    proof (cases "?x < ?y")
      case True
      with top one r_def have "bit ?x 63" and "bit ?x 1"
        by simp_all
      with y63 have "?y < ?x"
        by (intro top_bit_order) simp_all
      with True show False
        by simp
    next
      case False
      with top one r_def have "bit ?y 63" and "bit ?y 1"
        by simp_all
      with y1 have "?x < ?y"
        by (intro top_bit_order) simp_all
      with False show False
        by simp
    qed
  qed
  with sentinel_bits show "r \<noteq> TWOBIT_UNKNOWN_CHAR" and "r \<noteq> TWOBIT_N_CHAR"
    by blast+
qed

lemma sint_small:
  fixes r :: u64
  assumes "uint r < 2 ^ 63"
  shows "sint r = uint r"
proof -
  have "sint r = signed_take_bit 63 (uint r)"
    by (simp add: sint_uint)
  also have "\<dots> = uint r"
  proof (rule signed_take_bit_int_eq_self)
    have "- (2 ^ 63) \<le> (0 :: int)"
      by simp
    also have "0 \<le> uint r"
      by simp
    finally show "- (2 ^ 63) \<le> uint r" .
    from assms show "uint r < 2 ^ 63" .
  qed
  finally show ?thesis .
qed

lemma kmer_value_31:
  fixes k :: u64
  assumes "k \<le> 31" and "length w = unat k" and "\<forall>c\<in>set w. is_acgt c"
  shows "kmer_value w < 2 ^ 63"
proof -
  from assms(1) have "uint k \<le> 31"
    by (simp add: word_le_def)
  then have "unat k \<le> 31"
    unfolding unat_eq_nat_uint by linarith
  with assms(2) have len: "length w \<le> 31"
    by simp
  from kmer_value_bounds [OF assms(3)] have "kmer_value w < 4 ^ length w"
    by simp
  also from len have "(4 :: int) ^ length w \<le> 4 ^ 31"
    by (intro power_increasing) simp_all
  also have "(4 :: int) ^ 31 < 2 ^ 63"
    by simp
  finally show ?thesis .
qed

text \<open>
  C3, as stated for \<open>k\<close> up to 32, fails at \<open>k = 32\<close>: the function returns an \<^verbatim>\<open>int64_t\<close>,
  and for the valid window of thirty-one \<^verbatim>\<open>T\<close> followed by \<^verbatim>\<open>A\<close> the smaller encoding is
  \<^verbatim>\<open>0xC000000000000000\<close>, which the function returns as the negative number
  \<open>- 4611686018427387904\<close>, not as the minimum \<open>13835058055282163712\<close>.
\<close>

theorem canonical_kmer_signed_32mer_counterexample:
  "list_all is_acgt (map byte_of_char ''TTTTTTTTTTTTTTTTTTTTTTTTTTTTTTTA'')
   \<and> length (map byte_of_char ''TTTTTTTTTTTTTTTTTTTTTTTTTTTTTTTA'') = unat (32 :: u64)
   \<and> sequence_to_canonical_kmer (map byte_of_char ''TTTTTTTTTTTTTTTTTTTTTTTTTTTTTTTA'') 32 =
       Inr 0xC000000000000000
   \<and> sint (0xC000000000000000 :: u64) = - 4611686018427387904
   \<and> min (kmer_value (map byte_of_char ''TTTTTTTTTTTTTTTTTTTTTTTTTTTTTTTA''))
         (kmer_value (reverse_complement (map byte_of_char ''TTTTTTTTTTTTTTTTTTTTTTTTTTTTTTTA'')))
       = 13835058055282163712
   \<and> sint (0xC000000000000000 :: u64) \<noteq>
       min (kmer_value (map byte_of_char ''TTTTTTTTTTTTTTTTTTTTTTTTTTTTTTTA''))
         (kmer_value (reverse_complement (map byte_of_char ''TTTTTTTTTTTTTTTTTTTTTTTTTTTTTTTA'')))"
  by code_simp

text \<open>
  C3, amended. For a window of \<open>k\<close> bytes, each one of A, C, G, T in either case, let \<open>m\<close>
  be the smaller of two numbers: the window packed two bits per base with the first base
  most significant, and the reverse complement of the window packed the same way. For
  \<open>1 \<le> k \<le> 31\<close> the \<^verbatim>\<open>int64_t\<close> the encoder returns is \<open>m\<close>. For \<open>k = 32\<close> it has the bit
  pattern of \<open>m\<close> (its unsigned reading is \<open>m\<close>), and it is \<open>m\<close> as a signed number exactly
  when \<open>m\<close> is below \<open>2 ^ 63\<close>. For the window \<^verbatim>\<open>ACGT\<close> the value returned is \<^verbatim>\<open>0x1B\<close>.
\<close>

theorem canonical_kmer_is_minimum:
  assumes "1 \<le> k" and "k \<le> 32" and "length w = unat k" and "\<forall>c\<in>set w. is_acgt c"
  shows "(\<exists>r. sequence_to_canonical_kmer w k = Inr r
           \<and> uint r = min (kmer_value w) (kmer_value (reverse_complement w))
           \<and> (k \<le> 31 \<longrightarrow> sint r = min (kmer_value w) (kmer_value (reverse_complement w)))
           \<and> (sint r = min (kmer_value w) (kmer_value (reverse_complement w))
                \<longleftrightarrow> min (kmer_value w) (kmer_value (reverse_complement w)) < 2 ^ 63))
       \<and> sequence_to_canonical_kmer (map byte_of_char ''ACGT'') 4 = Inr 0x1B"
proof -
  have acgt_4: "sequence_to_canonical_kmer (map byte_of_char ''ACGT'') 4 = Inr 0x1B"
    by code_simp
  let ?x = "pack 0 w" and ?y = "pack 0 (reverse_complement w)"
  let ?m = "min (kmer_value w) (kmer_value (reverse_complement w))"
  let ?r = "if ?x < ?y then ?x else ?y"
  from assms(2,3) have len: "length w \<le> 32"
    using shift_count(3) [OF assms(1,2)] by simp
  have x: "uint ?x = kmer_value w"
    using assms(4) len by (rule uint_pack)
  have y: "uint ?y = kmer_value (reverse_complement w)"
    using reverse_complement_valid [OF assms(4)] len by (intro uint_pack) simp_all
  have "uint ?r = min (uint ?x) (uint ?y)"
    by (simp add: word_less_def min_def)
  then have u: "uint ?r = ?m"
    by (simp only: x y)
  have small: "sint ?r = ?m" if "?m < 2 ^ 63"
    using that sint_small [of ?r] by (simp only: u)
  have big: "sint ?r \<noteq> ?m" if "\<not> ?m < 2 ^ 63"
  proof -
    have "sint ?r < 2 ^ 63"
      using sint_lt [of ?r] by simp
    with that show ?thesis
      by simp
  qed
  have k31: "?m < 2 ^ 63" if "k \<le> 31"
  proof -
    from kmer_value_31 [OF that assms(3,4)] have "kmer_value w < 2 ^ 63" .
    then show ?thesis
      by (simp add: min_def)
  qed
  from u small big k31 canonical_kmer_valid [OF assms]
  have "\<exists>r. sequence_to_canonical_kmer w k = Inr r
           \<and> uint r = ?m \<and> (k \<le> 31 \<longrightarrow> sint r = ?m) \<and> (sint r = ?m \<longleftrightarrow> ?m < 2 ^ 63)"
    by (intro exI [of _ ?r]) blast
  with acgt_4 show ?thesis
    by (rule conjI [rotated])
qed

theorem canonical_kmer_is_minimum_witness:
  "(1 :: u64) \<le> 4 \<and> (4 :: u64) \<le> 32 \<and> (4 :: u64) \<le> 31
   \<and> length (map byte_of_char ''TTGA'') = unat (4 :: u64)
   \<and> list_all is_acgt (map byte_of_char ''TTGA'')
   \<and> reverse_complement (map byte_of_char ''TTGA'') = map byte_of_char ''TCAA''
   \<and> kmer_value (map byte_of_char ''TTGA'') = 0xF8
   \<and> kmer_value (map byte_of_char ''TCAA'') = 0xD0
   \<and> sequence_to_canonical_kmer (map byte_of_char ''TTGA'') 4 = Inr 0xD0
   \<and> sint (0xD0 :: u64) = 0xD0"
proof -
  have a: "(1 :: u64) \<le> 4" and b: "(4 :: u64) \<le> 32" and b': "(4 :: u64) \<le> 31"
    and c: "length (map byte_of_char ''TTGA'') = unat (4 :: u64)"
    by simp_all
  have d: "\<forall>c\<in>set (map byte_of_char ''TTGA''). is_acgt c"
    by code_simp
  then have d': "list_all is_acgt (map byte_of_char ''TTGA'')"
    by (simp only: list_all_iff)
  have e: "reverse_complement (map byte_of_char ''TTGA'') = map byte_of_char ''TCAA''"
    by code_simp
  have f: "kmer_value (map byte_of_char ''TTGA'') = 0xF8"
    by code_simp
  have g: "kmer_value (map byte_of_char ''TCAA'') = 0xD0"
    by code_simp
  from canonical_kmer_is_minimum [OF a b c d] b' obtain r :: u64
    where r: "sequence_to_canonical_kmer (map byte_of_char ''TTGA'') 4 = Inr r"
      and u: "uint r = min (kmer_value (map byte_of_char ''TTGA''))
                (kmer_value (reverse_complement (map byte_of_char ''TTGA'')))"
      and s: "sint r = min (kmer_value (map byte_of_char ''TTGA''))
                (kmer_value (reverse_complement (map byte_of_char ''TTGA'')))"
    by blast
  from u have "uint r = 0xD0"
    unfolding e f g by simp
  then have "word_of_int (uint r) = (word_of_int 0xD0 :: u64)"
    by (simp only:)
  then have r208: "r = 0xD0"
    by simp
  with r have v: "sequence_to_canonical_kmer (map byte_of_char ''TTGA'') 4 = Inr 0xD0"
    by simp
  from s have "sint r = 0xD0"
    unfolding e f g by simp
  then have w: "sint (0xD0 :: u64) = 0xD0"
    by (simp only: r208)
  from a b b' c d' e f g v w show ?thesis
    by (intro conjI)
qed

text \<open>
  C2. For \<open>1 \<le> k \<le> 32\<close> and a window of \<open>k\<close> bytes, each one of A, C, G, T in either
  case, the encoder returns on the reverse complement of the window (bases in reverse
  order, A exchanged with T and C with G) what it returns on the window.
\<close>

theorem canonical_kmer_revcomp_symmetric:
  assumes "1 \<le> k" and "k \<le> 32" and "length w = unat k" and "\<forall>c\<in>set w. is_acgt c"
  shows "sequence_to_canonical_kmer (reverse_complement w) k = sequence_to_canonical_kmer w k"
proof -
  let ?x = "pack 0 w" and ?y = "pack 0 (reverse_complement w)"
  have len': "length (reverse_complement w) = unat k"
    using assms(3) by simp
  note valid' = reverse_complement_valid [OF assms(4)]
  have "(if ?y < ?x then ?y else ?x) = (if ?x < ?y then ?x else ?y)"
    by auto
  then show ?thesis
    unfolding canonical_kmer_valid [OF assms] canonical_kmer_valid [OF assms(1,2) len' valid']
      reverse_complement_involution [OF assms(4)]
    by simp
qed

theorem canonical_kmer_revcomp_symmetric_witness:
  "(1 :: u64) \<le> 13 \<and> (13 :: u64) \<le> 32
   \<and> length (map byte_of_char ''GATTACAGATTAC'') = unat (13 :: u64)
   \<and> list_all is_acgt (map byte_of_char ''GATTACAGATTAC'')
   \<and> reverse_complement (map byte_of_char ''GATTACAGATTAC'') = map byte_of_char ''GTAATCTGTAATC''
   \<and> sequence_to_canonical_kmer (map byte_of_char ''GATTACAGATTAC'') 13 = Inr 37505265
   \<and> sequence_to_canonical_kmer (map byte_of_char ''GTAATCTGTAATC'') 13 = Inr 37505265"
proof -
  have a: "(1 :: u64) \<le> 13" and b: "(13 :: u64) \<le> 32"
    and c: "length (map byte_of_char ''GATTACAGATTAC'') = unat (13 :: u64)"
    by simp_all
  have d: "\<forall>c\<in>set (map byte_of_char ''GATTACAGATTAC''). is_acgt c"
    by code_simp
  have e: "reverse_complement (map byte_of_char ''GATTACAGATTAC'') =
      map byte_of_char ''GTAATCTGTAATC''"
    by code_simp
  have v: "sequence_to_canonical_kmer (map byte_of_char ''GATTACAGATTAC'') 13 = Inr 37505265"
    by code_simp
  have s: "sequence_to_canonical_kmer (map byte_of_char ''GTAATCTGTAATC'') 13 =
      sequence_to_canonical_kmer (map byte_of_char ''GATTACAGATTAC'') 13"
    using canonical_kmer_revcomp_symmetric [OF a b c d] unfolding e .
  from s v
  have "sequence_to_canonical_kmer (map byte_of_char ''GTAATCTGTAATC'') 13 = Inr 37505265"
    by (rule trans)
  moreover from d have "list_all is_acgt (map byte_of_char ''GATTACAGATTAC'')"
    by (simp only: list_all_iff)
  ultimately show ?thesis
    using a b c e v by (intro conjI)
qed

text \<open>
  C5, as stated for every window, fails on a byte outside 7-bit ASCII: the byte \<^verbatim>\<open>0x80\<close> is
  not a base, yet the call does not return an error value; it reads past the end of the
  table.
\<close>

theorem non_ascii_byte_counterexample:
  "\<not> is_acgt (0x80 :: u8)
   \<and> sequence_to_canonical_kmer [0x80] 1 = Inl TableOverrun
   \<and> sequence_to_canonical_kmer [0x80] 1 \<noteq> Inr TWOBIT_UNKNOWN_CHAR
   \<and> sequence_to_canonical_kmer [0x80] 1 \<noteq> Inr TWOBIT_N_CHAR"
  by code_simp

text \<open>
  C5, amended. For \<open>1 \<le> k \<le> 32\<close> and a window whose first \<open>k\<close> bytes are 7-bit ASCII, the
  encoder returns \<^verbatim>\<open>TWOBIT_UNKNOWN_CHAR\<close> or \<^verbatim>\<open>TWOBIT_N_CHAR\<close> exactly when one of these
  bytes is not A, C, G or T in either case. It returns \<^verbatim>\<open>TWOBIT_UNKNOWN_CHAR\<close> whenever
  one of them is neither a base nor \<^verbatim>\<open>N\<close> or \<^verbatim>\<open>n\<close>, also when an \<^verbatim>\<open>N\<close> is present, and
  \<^verbatim>\<open>TWOBIT_N_CHAR\<close> when the only bytes that are not bases are \<^verbatim>\<open>N\<close> or \<^verbatim>\<open>n\<close>.
\<close>

theorem error_iff_invalid_base:
  assumes "1 \<le> k" and "k \<le> 32" and "unat k \<le> length w"
    and "\<forall>c\<in>set (take (unat k) w). is_ascii c"
  shows "((sequence_to_canonical_kmer w k = Inr TWOBIT_UNKNOWN_CHAR
           \<or> sequence_to_canonical_kmer w k = Inr TWOBIT_N_CHAR)
          \<longleftrightarrow> (\<exists>c\<in>set (take (unat k) w). \<not> is_acgt c))
       \<and> ((\<exists>c\<in>set (take (unat k) w). \<not> is_acgt c \<and> \<not> is_n c)
            \<longrightarrow> sequence_to_canonical_kmer w k = Inr TWOBIT_UNKNOWN_CHAR)
       \<and> ((\<exists>c\<in>set (take (unat k) w). is_n c)
            \<and> \<not> (\<exists>c\<in>set (take (unat k) w). \<not> is_acgt c \<and> \<not> is_n c)
            \<longrightarrow> sequence_to_canonical_kmer w k = Inr TWOBIT_N_CHAR)"
proof -
  let ?ws = "take (unat k) w"
  let ?unknown = "\<exists>c\<in>set ?ws. \<not> is_acgt c \<and> \<not> is_n c"
  let ?n = "\<exists>c\<in>set ?ws. is_n c"
  note out = canonical_kmer_ascii [OF assms(2,3,4)]
  have u: "sequence_to_canonical_kmer w k = Inr TWOBIT_UNKNOWN_CHAR" if ?unknown
    using that by (simp only: out if_True)
  have n: "sequence_to_canonical_kmer w k = Inr TWOBIT_N_CHAR" if ?n and "\<not> ?unknown"
    using that by (simp only: out if_True if_False)
  have invalid: "?unknown \<or> ?n" if "\<exists>c\<in>set ?ws. \<not> is_acgt c"
    using that by blast
  have valid: "sequence_to_canonical_kmer w k \<noteq> Inr TWOBIT_UNKNOWN_CHAR
      \<and> sequence_to_canonical_kmer w k \<noteq> Inr TWOBIT_N_CHAR"
    if all: "\<forall>c\<in>set ?ws. is_acgt c"
  proof -
    from assms(3) have len: "length ?ws = unat k"
      by simp
    have same: "sequence_to_canonical_kmer ?ws k = sequence_to_canonical_kmer w k"
      using assms(3) by (simp add: canonical_kmer_unfold [OF assms(2)])
    obtain r where r: "sequence_to_canonical_kmer ?ws k = Inr r"
      by (simp add: canonical_kmer_valid [OF assms(1,2) len all])
    from canonical_not_sentinel [OF assms(1,2) len all r] r same show ?thesis
      by simp
  qed
  from u n invalid valid is_n_not_acgt show ?thesis
    by blast
qed

lemma error_examples:
  "sequence_to_canonical_kmer (map byte_of_char ''ACGN'') 4 = Inr TWOBIT_N_CHAR"
  "sequence_to_canonical_kmer (map byte_of_char ''ACG@'') 4 = Inr TWOBIT_UNKNOWN_CHAR"
  "sequence_to_canonical_kmer (map byte_of_char ''N@GT'') 4 = Inr TWOBIT_UNKNOWN_CHAR"
  by code_simp+

theorem error_iff_invalid_base_witness:
  "(1 :: u64) \<le> 5 \<and> (5 :: u64) \<le> 32 \<and> unat (5 :: u64) \<le> length (map byte_of_char ''AN@GT'')
   \<and> list_all is_ascii (take (unat (5 :: u64)) (map byte_of_char ''AN@GT''))
   \<and> (\<exists>c\<in>set (take (unat (5 :: u64)) (map byte_of_char ''AN@GT'')). is_n c)
   \<and> (\<exists>c\<in>set (take (unat (5 :: u64)) (map byte_of_char ''AN@GT'')). \<not> is_acgt c \<and> \<not> is_n c)
   \<and> sequence_to_canonical_kmer (map byte_of_char ''AN@GT'') 5 = Inr TWOBIT_UNKNOWN_CHAR"
proof -
  have a: "(1 :: u64) \<le> 5" and b: "(5 :: u64) \<le> 32"
    and c: "unat (5 :: u64) \<le> length (map byte_of_char ''AN@GT'')"
    by simp_all
  have d: "\<forall>c\<in>set (take (unat (5 :: u64)) (map byte_of_char ''AN@GT'')). is_ascii c"
    by code_simp
  have e: "\<exists>c\<in>set (take (unat (5 :: u64)) (map byte_of_char ''AN@GT'')). is_n c"
    by code_simp
  have f: "\<exists>c\<in>set (take (unat (5 :: u64)) (map byte_of_char ''AN@GT'')).
      \<not> is_acgt c \<and> \<not> is_n c"
    by code_simp
  from error_iff_invalid_base [OF a b c d] f
  have "sequence_to_canonical_kmer (map byte_of_char ''AN@GT'') 5 = Inr TWOBIT_UNKNOWN_CHAR"
    by blast
  moreover from d
  have "list_all is_ascii (take (unat (5 :: u64)) (map byte_of_char ''AN@GT''))"
    by (simp only: list_all_iff)
  ultimately show ?thesis
    using a b c e f by (intro conjI)
qed

end
